theory Spec2Isabelle
  imports Main "HOL-Library.Word"
begin

unbundle bit_operations_syntax

section \<open>Fence.h of the D3D12LinkedGpus sample\<close>

text \<open>
  The file \<^verbatim>\<open>Fence.h\<close> declares two classes: \<^verbatim>\<open>Fence\<close>, a wrapper of a D3D12 fence
  object bound to a command queue, and \<^verbatim>\<open>LinearFence\<close>, which adds a ring buffer of
  signalled values. Their member functions are embedded below as functions on records.
  Every member function calls into the D3D12 runtime and Win32; these calls are embedded as
  functions on a record \<open>world\<close>, a simulated GPU with command queues, fence objects and
  events.
\<close>

subsection \<open>Machine types\<close>

type_synonym u64 = "64 word"
type_synonym uint = "32 word"
type_synonym hresult = "32 word"
type_synonym dword = "32 word"
type_synonym fence_id = nat
type_synonym queue_id = nat
type_synonym handle = nat

definition S_OK :: hresult where
  "S_OK = 0"

definition E_NOINTERFACE :: hresult where
  "E_NOINTERFACE = 0x80004002"

definition DXGI_ERROR_DEVICE_REMOVED :: hresult where
  "DXGI_ERROR_DEVICE_REMOVED = 0x887A0005"

definition ERROR_NOT_ENOUGH_MEMORY :: dword where
  "ERROR_NOT_ENOUGH_MEMORY = 8"

definition INFINITE :: dword where
  "INFINITE = 0xFFFFFFFF"

definition NULL :: handle where
  "NULL = 0"

text \<open>\<^verbatim>\<open>FAILED(hr)\<close>: an HRESULT is a signed 32-bit value, negative on failure.\<close>

definition FAILED :: "hresult \<Rightarrow> bool" where
  "FAILED hr = (sint hr < 0)"

text \<open>\<^verbatim>\<open>HRESULT_FROM_WIN32(x)\<close>: the Win32 error code moved into facility 7.\<close>

definition HRESULT_FROM_WIN32 :: "dword \<Rightarrow> hresult" where
  "HRESULT_FROM_WIN32 x = (if sint x \<le> 0 then x else (x AND 0x0000FFFF) OR 0x80070000)"

subsection \<open>Outcomes of a call\<close>

text \<open>
  A call returns, or throws, or never returns. A throw leaves the object and the world as
  they were at the throw; a failed \<^verbatim>\<open>_ASSERT\<close> and the undefined accesses of a vector are
  errors of the same kind. \<open>Hang\<close> is a CPU wait whose event never fires.
\<close>

datatype error =
    HrException hresult
  | AssertionFailed
  | SubscriptOutOfRange
  | DivideByZero

datatype ('f, 'a) outcome = Done 'a | Failed error 'f | Hang

type_synonym 's result = "('s, 's) outcome"

fun and_then :: "('f, 'a) outcome \<Rightarrow> ('a \<Rightarrow> ('f, 'b) outcome) \<Rightarrow> ('f, 'b) outcome" where
  "and_then (Done a) k = k a"
| "and_then (Failed e s) k = Failed e s"
| "and_then Hang k = Hang"

text \<open>
  Modelled from the spec: \<^verbatim>\<open>ThrowIfFailed\<close> of \<^verbatim>\<open>DXSampleHelper.h\<close>, which is not among the
  sources. Any native failure is fatal and surfaces as an exception at the call site.
\<close>

definition ThrowIfFailed :: "hresult \<Rightarrow> 's \<Rightarrow> 's result" where
  "ThrowIfFailed hr s = (if FAILED hr then Failed (HrException hr) s else Done s)"

text \<open>
  Modelled from the spec: \<^verbatim>\<open>_ASSERT\<close> of \<^verbatim>\<open>crtdbg.h\<close>, which is not among the sources.
  The macro depends on the build, so the build is a parameter. In a build with \<^verbatim>\<open>_DEBUG\<close> a
  false expression is a failed assertion, which ends the call (section 7). In a build
  without \<^verbatim>\<open>_DEBUG\<close> the macro expands to nothing, and the statement after it runs
  whatever the expression is.
\<close>

definition CRT_ASSERT :: "bool \<Rightarrow> bool \<Rightarrow> 's \<Rightarrow> 's result" where
  "CRT_ASSERT debug expr s = (if debug \<and> \<not> expr then Failed AssertionFailed s else Done s)"

subsection \<open>The simulated GPU\<close>

text \<open>
  Modelled from the spec: the capabilities of the execution environment (section 6 and the
  glossary). A command queue is a FIFO of commands; a signal command sets a fence object
  to a value; a wait command stalls its queue until a fence object has reached a value.
  The GPU runs by itself: \<open>schedule\<close> lists the steps it will take, each a step of one
  queue, and \<open>CpuTurn\<close> marks the moments at which the next native call of the CPU thread
  takes effect. A schedule that ends is a GPU that makes no more progress.
  \<open>past\<close> keeps the values a fence object held before, \<open>retired\<close> counts the commands
  a queue has executed, and \<open>calls\<close> is the log of native calls; no operation reads them.
  \<open>crt_debug\<close> is the build: whether the program was compiled with \<^verbatim>\<open>_DEBUG\<close>.
\<close>

datatype command = SignalCmd fence_id u64 | WaitCmd fence_id u64

datatype tick = GpuStep queue_id | CpuTurn

datatype native_call =
    IUnknown_QueryInterface queue_id
  | ID3D12CommandQueue_GetDevice queue_id
  | ID3D12Device_CreateFence u64
  | Win32_CreateEvent
  | Win32_GetLastError
  | ID3D12CommandQueue_Signal queue_id fence_id u64
  | ID3D12CommandQueue_Wait queue_id fence_id u64
  | ID3D12Fence_GetCompletedValue fence_id
  | ID3D12Fence_SetEventOnCompletion fence_id u64 handle
  | Win32_WaitForSingleObjectEx handle dword bool

record world =
  completed :: "fence_id \<Rightarrow> u64"
  past :: "fence_id \<Rightarrow> u64 list"
  pending :: "queue_id \<Rightarrow> command list"
  retired :: "queue_id \<Rightarrow> nat"
  queues :: "queue_id list"
  registered :: "handle \<Rightarrow> (fence_id \<times> u64) option"
  device_removed :: bool
  os_handles :: "handle list"
  last_error :: dword
  next_fence :: fence_id
  schedule :: "tick list"
  calls :: "native_call list"
  crt_debug :: bool

definition gpu_step :: "queue_id \<Rightarrow> world \<Rightarrow> world" where
  "gpu_step q w =
     (case pending w q of
        [] \<Rightarrow> w
      | SignalCmd f v # cs \<Rightarrow>
          w\<lparr>completed := (completed w)(f := v),
            past := (past w)(f := completed w f # past w f),
            pending := (pending w)(q := cs),
            retired := (retired w)(q := Suc (retired w q))\<rparr>
      | WaitCmd f v # cs \<Rightarrow>
          if v \<le> completed w f
          then w\<lparr>pending := (pending w)(q := cs),
                 retired := (retired w)(q := Suc (retired w q))\<rparr>
          else w)"

fun gpu_tick :: "tick \<Rightarrow> world \<Rightarrow> world" where
  "gpu_tick (GpuStep q) w = gpu_step q w"
| "gpu_tick CpuTurn w = w"

text \<open>The GPU runs up to the next turn of the CPU thread.\<close>

fun run_gpu :: "tick list \<Rightarrow> world \<Rightarrow> world" where
  "run_gpu [] w = w\<lparr>schedule := []\<rparr>"
| "run_gpu (CpuTurn # ts) w = w\<lparr>schedule := ts\<rparr>"
| "run_gpu (GpuStep q # ts) w = run_gpu ts (gpu_step q w)"

definition advance :: "world \<Rightarrow> world" where
  "advance w = run_gpu (schedule w) w"

text \<open>
  The GPU runs until fence object \<open>f\<close> holds a value of at least \<open>v\<close>; \<open>None\<close> when the
  schedule ends first.
\<close>

fun await :: "fence_id \<Rightarrow> u64 \<Rightarrow> tick list \<Rightarrow> world \<Rightarrow> world option" where
  "await f v [] w = (if v \<le> completed w f then Some (w\<lparr>schedule := []\<rparr>) else None)"
| "await f v (t # ts) w =
     (if v \<le> completed w f then Some (w\<lparr>schedule := t # ts\<rparr>)
      else await f v ts (gpu_tick t w))"

text \<open>Fence object \<open>f\<close> holds, or has held, a value of at least \<open>x\<close>.\<close>

definition has_reached :: "world \<Rightarrow> fence_id \<Rightarrow> u64 \<Rightarrow> bool" where
  "has_reached w f x = list_ex (\<lambda>y. x \<le> y) (completed w f # past w f)"

definition log_call :: "native_call \<Rightarrow> world \<Rightarrow> world" where
  "log_call c w = w\<lparr>calls := calls w @ [c]\<rparr>"

subsection \<open>Native calls\<close>

text \<open>
  Modelled from the spec: the calls of the D3D12 runtime and of Win32 that \<^verbatim>\<open>Fence.h\<close>
  makes (section 6). Each lets the GPU run up to the next turn of the CPU thread and is
  written to the log; the calls of the device fail when the device is removed.
\<close>

definition queue_QueryInterface :: "queue_id \<Rightarrow> world \<Rightarrow> hresult \<times> world" where
  "queue_QueryInterface pQueue w =
     (let w1 = log_call (IUnknown_QueryInterface pQueue) (advance w)
      in if pQueue \<in> set (queues w1) then (S_OK, w1) else (E_NOINTERFACE, w1))"

definition queue_GetDevice :: "queue_id \<Rightarrow> world \<Rightarrow> hresult \<times> world" where
  "queue_GetDevice q w = (S_OK, log_call (ID3D12CommandQueue_GetDevice q) (advance w))"

definition device_CreateFence :: "u64 \<Rightarrow> world \<Rightarrow> hresult \<times> fence_id \<times> world" where
  "device_CreateFence initial w =
     (let w1 = log_call (ID3D12Device_CreateFence initial) (advance w); f = next_fence w1
      in if device_removed w1 then (DXGI_ERROR_DEVICE_REMOVED, f, w1)
         else (S_OK, f, w1\<lparr>completed := (completed w1)(f := initial),
                            past := (past w1)(f := []),
                            next_fence := Suc f\<rparr>))"

definition CreateEvent :: "world \<Rightarrow> handle \<times> world" where
  "CreateEvent w =
     (let w1 = log_call Win32_CreateEvent (advance w)
      in case os_handles w1 of
           [] \<Rightarrow> (NULL, w1\<lparr>last_error := ERROR_NOT_ENOUGH_MEMORY\<rparr>)
         | h # hs \<Rightarrow> (h, w1\<lparr>os_handles := hs, registered := (registered w1)(h := None)\<rparr>))"

definition GetLastError :: "world \<Rightarrow> dword \<times> world" where
  "GetLastError w = (let w1 = log_call Win32_GetLastError (advance w) in (last_error w1, w1))"

definition queue_Signal :: "queue_id \<Rightarrow> fence_id \<Rightarrow> u64 \<Rightarrow> world \<Rightarrow> hresult \<times> world" where
  "queue_Signal q f v w =
     (let w1 = log_call (ID3D12CommandQueue_Signal q f v) (advance w)
      in if device_removed w1 then (DXGI_ERROR_DEVICE_REMOVED, w1)
         else (S_OK, w1\<lparr>pending := (pending w1)(q := pending w1 q @ [SignalCmd f v])\<rparr>))"

definition queue_Wait :: "queue_id \<Rightarrow> fence_id \<Rightarrow> u64 \<Rightarrow> world \<Rightarrow> hresult \<times> world" where
  "queue_Wait q f v w =
     (let w1 = log_call (ID3D12CommandQueue_Wait q f v) (advance w)
      in if device_removed w1 then (DXGI_ERROR_DEVICE_REMOVED, w1)
         else (S_OK, w1\<lparr>pending := (pending w1)(q := pending w1 q @ [WaitCmd f v])\<rparr>))"

definition fence_GetCompletedValue :: "fence_id \<Rightarrow> world \<Rightarrow> u64 \<times> world" where
  "fence_GetCompletedValue f w =
     (let w1 = log_call (ID3D12Fence_GetCompletedValue f) (advance w) in (completed w1 f, w1))"

definition fence_SetEventOnCompletion ::
  "fence_id \<Rightarrow> u64 \<Rightarrow> handle \<Rightarrow> world \<Rightarrow> hresult \<times> world" where
  "fence_SetEventOnCompletion f v h w =
     (let w1 = log_call (ID3D12Fence_SetEventOnCompletion f v h) (advance w)
      in if device_removed w1 then (DXGI_ERROR_DEVICE_REMOVED, w1)
         else (S_OK, w1\<lparr>registered := (registered w1)(h := Some (f, v))\<rparr>))"

text \<open>
  \<^verbatim>\<open>WaitForSingleObjectEx(h, INFINITE, FALSE)\<close>, the only form the code calls: the thread
  sleeps until the event fires, which is when the fence object registered with the event
  holds a value of at least the registered one. There is no timeout and no alert, so the
  call has no other way to return; \<open>None\<close> is a thread that sleeps forever. The event
  resets itself when the thread wakes up.
\<close>

definition WaitForSingleObjectEx :: "handle \<Rightarrow> world \<Rightarrow> world option" where
  "WaitForSingleObjectEx h w =
     (let w1 = log_call (Win32_WaitForSingleObjectEx h INFINITE False) w
      in case registered w1 h of
           None \<Rightarrow> None
         | Some (f, v) \<Rightarrow>
             (case await f v (schedule w1) w1 of
                None \<Rightarrow> None
              | Some w2 \<Rightarrow> Some (w2\<lparr>registered := (registered w2)(h := None)\<rparr>)))"

subsection \<open>class Fence\<close>

record Fence =
  m_fence :: fence_id
  m_queue :: queue_id
  m_currentFenceValue :: u64
  m_fenceEvent :: handle

definition UnspecifiedFenceValue :: u64 where
  "UnspecifiedFenceValue = 0xFFFFFFFFFFFFFFFF"

definition Fence_ctor :: "queue_id \<Rightarrow> world \<Rightarrow> (world, Fence \<times> world) outcome" where
  "Fence_ctor pQueue w =
     (let (hr1, w1) = queue_QueryInterface pQueue w in
      and_then (ThrowIfFailed hr1 w1) (\<lambda>w1.
      let (hr2, w2) = queue_GetDevice pQueue w1 in
      and_then (ThrowIfFailed hr2 w2) (\<lambda>w2.
      let (hr3, fence, w3) = device_CreateFence 0 w2 in
      and_then (ThrowIfFailed hr3 w3) (\<lambda>w3.
      let (ev, w4) = CreateEvent w3 in
      and_then
        (if ev = NULL
         then (let (err, w5) = GetLastError w4 in ThrowIfFailed (HRESULT_FROM_WIN32 err) w5)
         else Done w4) (\<lambda>w5.
      Done (\<lparr>m_fence = fence, m_queue = pQueue, m_currentFenceValue = 0,
              m_fenceEvent = ev\<rparr>, w5))))))"

text \<open>
  \<^verbatim>\<open>Signal\<close>. The counter is changed before the native call, so a throw of
  \<^verbatim>\<open>ThrowIfFailed\<close> leaves the new counter behind. Nothing but the macro \<^verbatim>\<open>_ASSERT\<close> stands
  between the test of the value and the assignment.
\<close>

definition Signal ::
  "'a Fence_scheme \<Rightarrow> u64 \<Rightarrow> world \<Rightarrow> ('a Fence_scheme \<times> world) result" where
  "Signal this val w =
     and_then
       (if val = UnspecifiedFenceValue
        then Done (this\<lparr>m_currentFenceValue := m_currentFenceValue this + 1\<rparr>, w)
        else
          and_then (CRT_ASSERT (crt_debug w) (val > m_currentFenceValue this) (this, w))
            (\<lambda>(this, w). Done (this\<lparr>m_currentFenceValue := val\<rparr>, w)))
       (\<lambda>(this, w).
          let (hr, w1) = queue_Signal (m_queue this) (m_fence this) (m_currentFenceValue this) w
          in ThrowIfFailed hr (this, w1))"

text \<open>The static \<^verbatim>\<open>GpuWait(pQueue, pFence, value)\<close>.\<close>

definition GpuWait_static ::
  "queue_id \<Rightarrow> 'a Fence_scheme \<Rightarrow> u64 \<Rightarrow> world \<Rightarrow> ('a Fence_scheme \<times> world) result" where
  "GpuWait_static pQueue pFence val w =
     (let val = (if val = UnspecifiedFenceValue then m_currentFenceValue pFence else val);
          (hr, w1) = queue_Wait pQueue (m_fence pFence) val w
      in ThrowIfFailed hr (pFence, w1))"

definition GpuWait ::
  "'a Fence_scheme \<Rightarrow> u64 \<Rightarrow> world \<Rightarrow> ('a Fence_scheme \<times> world) result" where
  "GpuWait this val w = GpuWait_static (m_queue this) this val w"

definition CpuWait ::
  "'a Fence_scheme \<Rightarrow> u64 \<Rightarrow> world \<Rightarrow> ('a Fence_scheme \<times> world) result" where
  "CpuWait this fenceValue w =
     (let fenceValue =
            (if fenceValue = UnspecifiedFenceValue then m_currentFenceValue this
             else fenceValue);
          (c, w1) = fence_GetCompletedValue (m_fence this) w
      in if c < fenceValue
         then
           (let (hr, w2) =
                  fence_SetEventOnCompletion (m_fence this) fenceValue (m_fenceEvent this) w1
            in and_then (ThrowIfFailed hr (this, w2)) (\<lambda>(this, w2).
                 case WaitForSingleObjectEx (m_fenceEvent this) w2 of
                   None \<Rightarrow> Hang
                 | Some w3 \<Rightarrow> Done (this, w3)))
         else Done (this, w1))"

definition FlushGpuQueue :: "'a Fence_scheme \<Rightarrow> world \<Rightarrow> ('a Fence_scheme \<times> world) result" where
  "FlushGpuQueue this w =
     and_then (Signal this UnspecifiedFenceValue w)
       (\<lambda>(this, w). CpuWait this (m_currentFenceValue this) w)"

subsection \<open>class LinearFence\<close>

record LinearFence = Fence +
  m_signalHistory :: "u64 list"
  m_signalIndex :: uint

text \<open>\<^verbatim>\<open>resize(count)\<close> on the empty vector gives \<open>count\<close> zeros.\<close>

definition LinearFence_ctor ::
  "queue_id \<Rightarrow> uint \<Rightarrow> world \<Rightarrow> (world, LinearFence \<times> world) outcome" where
  "LinearFence_ctor pQueue count w =
     and_then (Fence_ctor pQueue w) (\<lambda>(base, w).
       Done (\<lparr>m_fence = m_fence base, m_queue = m_queue base,
               m_currentFenceValue = m_currentFenceValue base,
               m_fenceEvent = m_fenceEvent base,
               m_signalHistory = replicate (unat count) 0,
               m_signalIndex = 0\<rparr>, w))"

text \<open>
  \<^verbatim>\<open>Next\<close>. \<^verbatim>\<open>operator[]\<close> of a vector outside its size and \<^verbatim>\<open>%\<close> by zero are undefined in
  C++; here each ends the call with an error, in the order of the statements. The sum
  \<^verbatim>\<open>m_signalIndex + 1\<close> is computed in 32 bits, the remainder in \<^verbatim>\<open>size_t\<close>, and the result
  is cut to 32 bits again.
\<close>

definition Next :: "LinearFence \<Rightarrow> world \<Rightarrow> (LinearFence \<times> world) result" where
  "Next this w =
     (let sz = length (m_signalHistory this) in
      if sz \<le> unat (m_signalIndex this) then Failed SubscriptOutOfRange (this, w)
      else
        (let this = this\<lparr>m_signalHistory :=
               (m_signalHistory this)[unat (m_signalIndex this) := m_currentFenceValue this]\<rparr>
         in if sz = 0 then Failed DivideByZero (this, w)
            else
              (let this = this\<lparr>m_signalIndex :=
                     word_of_nat (unat (m_signalIndex this + 1) mod sz)\<rparr>
               in if sz \<le> unat (m_signalIndex this)
                  then Failed SubscriptOutOfRange (this, w)
                  else CpuWait this (m_signalHistory this ! unat (m_signalIndex this)) w)))"

subsection \<open>Runs of calls\<close>

text \<open>
  The calls a client can make on a \<^verbatim>\<open>LinearFence\<close>: the public members of \<^verbatim>\<open>Fence\<close> and
  \<^verbatim>\<open>Next\<close>. \<open>run\<close> makes the calls of a list one after the other and stops at the first
  that does not return. Beside the program's state it collects, latest first, the counter
  that each call of \<^verbatim>\<open>Next\<close> found and stored in the ring buffer.
\<close>

datatype api =
    DoSignal u64
  | DoGpuWait u64
  | DoGpuWaitOn queue_id u64
  | DoFlushGpuQueue
  | DoNext

fun exec :: "api \<Rightarrow> LinearFence \<Rightarrow> world \<Rightarrow> (LinearFence \<times> world) result" where
  "exec (DoSignal v) this w = Signal this v w"
| "exec (DoGpuWait v) this w = GpuWait this v w"
| "exec (DoGpuWaitOn q v) this w = GpuWait_static q this v w"
| "exec DoFlushGpuQueue this w = FlushGpuQueue this w"
| "exec DoNext this w = Next this w"

fun run ::
  "api list \<Rightarrow> LinearFence \<Rightarrow> world \<Rightarrow> u64 list \<Rightarrow>
     (LinearFence \<times> world, (LinearFence \<times> world) \<times> u64 list) outcome" where
  "run [] this w recs = Done ((this, w), recs)"
| "run (c # cs) this w recs =
     and_then (exec c this w)
       (\<lambda>(this', w'). run cs this' w'
          (if c = DoNext then m_currentFenceValue this # recs else recs))"

text \<open>\<open>Signals n\<close> is \<open>n\<close> calls of \<^verbatim>\<open>Signal()\<close> with no argument.\<close>

fun Signals :: "nat \<Rightarrow> 'a Fence_scheme \<Rightarrow> world \<Rightarrow> ('a Fence_scheme \<times> world) result" where
  "Signals 0 this w = Done (this, w)"
| "Signals (Suc n) this w =
     and_then (Signal this UnspecifiedFenceValue w) (\<lambda>(this', w'). Signals n this' w')"

text \<open>A call ended, by a return or by a throw, in state \<open>s\<close>.\<close>

definition ends_in :: "'s result \<Rightarrow> 's \<Rightarrow> bool" where
  "ends_in r s = (r = Done s \<or> (\<exists>e. r = Failed e s))"

text \<open>The cursor of the ring buffer is inside the buffer.\<close>

definition in_bounds :: "LinearFence \<Rightarrow> bool" where
  "in_bounds this = (unat (m_signalIndex this) < length (m_signalHistory this))"

text \<open>
  What the GPU side of a world can do between two moments: a queue takes a step, a command
  is put at the end of a queue, or something else changes that is neither a fence object
  nor a queue.
\<close>

inductive evolves :: "world \<Rightarrow> world \<Rightarrow> bool" where
  same: "evolves w w"
| step: "evolves w w1 \<Longrightarrow> evolves w (gpu_step q w1)"
| enqueue: "evolves w w1 \<Longrightarrow>
     evolves w (w1\<lparr>pending := (pending w1)(q := pending w1 q @ [c])\<rparr>)"
| other: "evolves w w1 \<Longrightarrow> completed w2 = completed w1 \<Longrightarrow> past w2 = past w1 \<Longrightarrow>
     pending w2 = pending w1 \<Longrightarrow> retired w2 = retired w1 \<Longrightarrow> evolves w w2"

text \<open>
  Command number \<open>p\<close> of queue \<open>q\<close>, counted from the first command the queue ever got, is
  a wait for value \<open>v\<close> of fence object \<open>f\<close> that the queue has not passed yet.
\<close>

definition stalls_at :: "world \<Rightarrow> queue_id \<Rightarrow> nat \<Rightarrow> fence_id \<Rightarrow> u64 \<Rightarrow> bool" where
  "stalls_at w q p f v =
     (retired w q \<le> p \<and> p < retired w q + length (pending w q) \<and>
      pending w q ! (p - retired w q) = WaitCmd f v)"

text \<open>
  The state of a run that has made \<open>length recs\<close> calls of \<^verbatim>\<open>Next\<close>: where the cursor is,
  which of the stored counters the ring buffer still holds and in which slots, and which of
  them the fence object has reached. \<open>recs ! i\<close> is the counter stored \<open>i\<close> calls before
  the latest.
\<close>

definition throttled :: "LinearFence \<Rightarrow> world \<Rightarrow> u64 list \<Rightarrow> bool" where
  "throttled this w recs =
     (let n = length (m_signalHistory this); k = length recs in
      0 < n \<and> n < 2 ^ 32 \<and> unat (m_signalIndex this) = k mod n \<and>
      (\<forall>m<k. k \<le> m + n \<longrightarrow> m_signalHistory this ! (m mod n) = recs ! (k - 1 - m)) \<and>
      (\<forall>i<k. n \<le> Suc i \<longrightarrow> recs ! i \<noteq> UnspecifiedFenceValue \<longrightarrow>
          has_reached w (m_fence this) (recs ! i)))"

text \<open>The queue has not passed its command number \<open>p\<close>, or the fence object has reached \<open>v\<close>.\<close>

definition guarded :: "world \<Rightarrow> queue_id \<Rightarrow> nat \<Rightarrow> fence_id \<Rightarrow> u64 \<Rightarrow> bool" where
  "guarded w q p f v = (stalls_at w q p f v \<or> has_reached w f v)"

text \<open>
  The values of the signals for fence object \<open>f\<close> in a list of commands, in the order
  of the list.
\<close>

fun signal_values :: "fence_id \<Rightarrow> command list \<Rightarrow> u64 list" where
  "signal_values f [] = []"
| "signal_values f (SignalCmd g v # cs) =
     (if g = f then v # signal_values f cs else signal_values f cs)"
| "signal_values f (WaitCmd g v # cs) = signal_values f cs"



subsection \<open>A world and objects to run the calls on\<close>

text \<open>
  A device with two queues and nothing in flight, for a program built with \<^verbatim>\<open>_DEBUG\<close>;
  \<open>release_world\<close> is the same for a program built without. Its GPU takes no step by itself
  (\<open>idle_world\<close>), or executes what queue 0 holds before each native call (\<open>eager_world\<close>).
\<close>

definition idle_world :: world where
  "idle_world =
     \<lparr>completed = (\<lambda>_. 0), past = (\<lambda>_. []), pending = (\<lambda>_. []), retired = (\<lambda>_. 0),
      queues = [0, 1], registered = (\<lambda>_. None), device_removed = False,
      os_handles = [1, 2, 3], last_error = 0, next_fence = 0, schedule = [],
      calls = [], crt_debug = True\<rparr>"

definition release_world :: world where
  "release_world = idle_world\<lparr>crt_debug := False\<rparr>"

definition eager_world :: world where
  "eager_world =
     idle_world\<lparr>schedule :=
       [GpuStep 0, CpuTurn, GpuStep 0, CpuTurn, GpuStep 0, CpuTurn,
        GpuStep 0, CpuTurn, GpuStep 0, CpuTurn, GpuStep 0, CpuTurn,
        GpuStep 0, CpuTurn, GpuStep 0, CpuTurn, GpuStep 0, CpuTurn,
        GpuStep 0, CpuTurn, GpuStep 0, CpuTurn, GpuStep 0, CpuTurn]\<rparr>"


definition busy_world :: world where
  "busy_world =
     idle_world\<lparr>pending := (\<lambda>_. [])(0 := [SignalCmd 0 1]),
                schedule := [CpuTurn, CpuTurn, GpuStep 0]\<rparr>"

text \<open>
  In \<open>slow_world\<close> the GPU takes a step of queue 0 after five native calls, and another
  after three more.
\<close>

definition slow_world :: world where
  "slow_world =
     idle_world\<lparr>schedule :=
       [CpuTurn, CpuTurn, CpuTurn, CpuTurn, CpuTurn, GpuStep 0,
        CpuTurn, CpuTurn, CpuTurn, GpuStep 0]\<rparr>"


text \<open>The native calls that register an event.\<close>

fun registers :: "native_call \<Rightarrow> bool" where
  "registers (ID3D12Fence_SetEventOnCompletion f v h) = True"
| "registers c = False"

definition a_fence :: Fence where
  "a_fence = \<lparr>m_fence = 0, m_queue = 0, m_currentFenceValue = 0, m_fenceEvent = 1\<rparr>"

definition a_linear_fence :: LinearFence where
  "a_linear_fence =
     \<lparr>m_fence = 0, m_queue = 0, m_currentFenceValue = 0, m_fenceEvent = 1,
      m_signalHistory = [0, 0], m_signalIndex = 0\<rparr>"

text \<open>The world in which the constructor, called in \<open>idle_world\<close> for queue 0, returns.\<close>

definition constructed_world :: world where
  "constructed_world =
     idle_world\<lparr>completed := (completed idle_world)(0 := 0),
                past := (past idle_world)(0 := []), next_fence := 1,
                os_handles := [2, 3],
                registered := (registered idle_world)(1 := None),
                calls := [IUnknown_QueryInterface 0, ID3D12CommandQueue_GetDevice 0,
                          ID3D12Device_CreateFence 0, Win32_CreateEvent]\<rparr>"

section \<open>Properties\<close>

subsection \<open>What the GPU leaves alone\<close>

lemma gpu_step_frame [simp]:
  "calls (gpu_step q w) = calls w"
  "registered (gpu_step q w) = registered w"
  "device_removed (gpu_step q w) = device_removed w"
  "schedule (gpu_step q w) = schedule w"
  "queues (gpu_step q w) = queues w"
  "os_handles (gpu_step q w) = os_handles w"
  "next_fence (gpu_step q w) = next_fence w"
  "last_error (gpu_step q w) = last_error w"
  by (simp_all add: gpu_step_def split: list.splits command.splits)

lemma gpu_tick_frame [simp]:
  "calls (gpu_tick t w) = calls w"
  "registered (gpu_tick t w) = registered w"
  "device_removed (gpu_tick t w) = device_removed w"
  "queues (gpu_tick t w) = queues w"
  "os_handles (gpu_tick t w) = os_handles w"
  "next_fence (gpu_tick t w) = next_fence w"
  "last_error (gpu_tick t w) = last_error w"
  by (cases t; simp)+

lemma run_gpu_frame [simp]:
  "calls (run_gpu ts w) = calls w"
  "registered (run_gpu ts w) = registered w"
  "device_removed (run_gpu ts w) = device_removed w"
  "queues (run_gpu ts w) = queues w"
  "os_handles (run_gpu ts w) = os_handles w"
  "next_fence (run_gpu ts w) = next_fence w"
  "last_error (run_gpu ts w) = last_error w"
  by (induction ts w rule: run_gpu.induct; simp)+

lemma advance_frame [simp]:
  "calls (advance w) = calls w"
  "registered (advance w) = registered w"
  "device_removed (advance w) = device_removed w"
  "queues (advance w) = queues w"
  "os_handles (advance w) = os_handles w"
  "next_fence (advance w) = next_fence w"
  "last_error (advance w) = last_error w"
  by (simp_all add: advance_def)

lemma await_frame:
  "await f v ts w = Some w' \<Longrightarrow>
     calls w' = calls w \<and> registered w' = registered w \<and>
     device_removed w' = device_removed w"
  by (induction ts arbitrary: w) (auto split: if_splits)

lemma await_reached: "await f v ts w = Some w' \<Longrightarrow> v \<le> completed w' f"
  by (induction ts arbitrary: w) (auto split: if_splits)

subsection \<open>Evolution\<close>

lemma evolves_trans: "evolves w1 w2 \<Longrightarrow> evolves w0 w1 \<Longrightarrow> evolves w0 w2"
  by (induction rule: evolves.induct) (auto intro: evolves.intros)

lemma evolves_tick: "evolves w w1 \<Longrightarrow> evolves w (gpu_tick t w1)"
  by (cases t) (auto intro: evolves.intros)

lemma evolves_run_gpu: "evolves w w1 \<Longrightarrow> evolves w (run_gpu ts w1)"
proof (induction ts w1 rule: run_gpu.induct)
  case (1 w1)
  then show ?case by (auto intro: evolves.other [where ?w1.0 = w1])
next
  case (2 ts w1)
  then show ?case by (auto intro: evolves.other [where ?w1.0 = w1])
next
  case (3 q ts w1)
  then show ?case by (auto intro: evolves.step)
qed

lemma evolves_advance: "evolves w w1 \<Longrightarrow> evolves w (advance w1)"
  by (simp add: advance_def evolves_run_gpu)

lemma evolves_await: "await f v ts w1 = Some w2 \<Longrightarrow> evolves w w1 \<Longrightarrow> evolves w w2"
proof (induction ts arbitrary: w1)
  case Nil
  then show ?case by (auto split: if_splits intro: evolves.other [where ?w1.0 = w1])
next
  case (Cons t ts)
  then show ?case
    by (auto split: if_splits intro: evolves.other [where ?w1.0 = w1] evolves_tick)
qed

lemma evolves_log: "evolves w w1 \<Longrightarrow> evolves w (log_call c w1)"
  by (auto simp: log_call_def intro: evolves.other [where ?w1.0 = w1])

lemma evolves_queue_Signal: "evolves w w1 \<Longrightarrow> evolves w (snd (queue_Signal q f v w1))"
  by (auto simp: queue_Signal_def Let_def intro!: evolves.enqueue evolves_log evolves_advance)

lemma evolves_queue_Wait: "evolves w w1 \<Longrightarrow> evolves w (snd (queue_Wait q f v w1))"
  by (auto simp: queue_Wait_def Let_def intro!: evolves.enqueue evolves_log evolves_advance)

lemma evolves_GetCompletedValue:
  "evolves w w1 \<Longrightarrow> evolves w (snd (fence_GetCompletedValue f w1))"
  by (auto simp: fence_GetCompletedValue_def Let_def intro!: evolves_log evolves_advance)

lemma evolves_SetEventOnCompletion:
  "evolves w w1 \<Longrightarrow> evolves w (snd (fence_SetEventOnCompletion f v h w1))"
  by (auto simp: fence_SetEventOnCompletion_def Let_def
      intro!: evolves_log evolves_advance
      intro: evolves.other [where ?w1.0 = "log_call c (advance w1)" for c])

lemma evolves_WaitForSingleObjectEx:
  "WaitForSingleObjectEx h w1 = Some w2 \<Longrightarrow> evolves w w1 \<Longrightarrow> evolves w w2"
  apply (auto simp: WaitForSingleObjectEx_def Let_def split: option.splits)
  apply (rule evolves.other [where ?w1.0 = w3 for w3])
  apply (erule evolves_await)
      apply (auto intro: evolves_log)
  done

subsection \<open>The native calls\<close>

lemma GetCompletedValue_result:
  "fence_GetCompletedValue f w = (c, w1) \<Longrightarrow>
     c = completed w1 f \<and> calls w1 = calls w @ [ID3D12Fence_GetCompletedValue f] \<and>
     registered w1 = registered w \<and> device_removed w1 = device_removed w"
  by (auto simp: fence_GetCompletedValue_def Let_def log_call_def)

lemma SetEventOnCompletion_result:
  "fence_SetEventOnCompletion f v h w = (hr, w1) \<Longrightarrow>
     calls w1 = calls w @ [ID3D12Fence_SetEventOnCompletion f v h] \<and>
     device_removed w1 = device_removed w \<and>
     (if device_removed w then hr = DXGI_ERROR_DEVICE_REMOVED \<and> registered w1 = registered w
      else hr = S_OK \<and> registered w1 = (registered w)(h := Some (f, v)))"
  by (auto simp: fence_SetEventOnCompletion_def Let_def log_call_def split: if_splits)

lemma WaitForSingleObjectEx_result:
  "WaitForSingleObjectEx h w = Some w1 \<Longrightarrow>
     \<exists>f v. registered w h = Some (f, v) \<and> v \<le> completed w1 f \<and>
       calls w1 = calls w @ [Win32_WaitForSingleObjectEx h INFINITE False] \<and>
       registered w1 = (registered w)(h := None) \<and> device_removed w1 = device_removed w"
proof -
  assume a: "WaitForSingleObjectEx h w = Some w1"
  let ?w = "log_call (Win32_WaitForSingleObjectEx h INFINITE False) w"
  from a obtain f v w2 where r: "registered w h = Some (f, v)"
    and aw: "await f v (schedule ?w) ?w = Some w2"
    and w1: "w1 = w2\<lparr>registered := (registered w2)(h := None)\<rparr>"
    by (auto simp: WaitForSingleObjectEx_def Let_def log_call_def split: option.splits)
  from await_reached [OF aw] await_frame [OF aw] r w1 show ?thesis
    by (simp add: log_call_def)
qed

lemma queue_Signal_result:
  "queue_Signal q f v w = (hr, w1) \<Longrightarrow>
     calls w1 = calls w @ [ID3D12CommandQueue_Signal q f v] \<and>
     device_removed w1 = device_removed w \<and> registered w1 = registered w \<and>
     (if device_removed w then hr = DXGI_ERROR_DEVICE_REMOVED \<and> pending w1 = pending (advance w)
      else hr = S_OK \<and> pending w1 = (pending (advance w))(q := pending (advance w) q @ [SignalCmd f v]))"
  by (auto simp: queue_Signal_def Let_def log_call_def split: if_splits)

lemma queue_Wait_result:
  "queue_Wait q f v w = (hr, w1) \<Longrightarrow>
     calls w1 = calls w @ [ID3D12CommandQueue_Wait q f v] \<and>
     device_removed w1 = device_removed w \<and> registered w1 = registered w \<and>
     retired w1 = retired (advance w) \<and>
     (if device_removed w then hr = DXGI_ERROR_DEVICE_REMOVED \<and> pending w1 = pending (advance w)
      else hr = S_OK \<and> pending w1 = (pending (advance w))(q := pending (advance w) q @ [WaitCmd f v]))"
  by (auto simp: queue_Wait_def Let_def log_call_def split: if_splits)

lemma FAILED_consts [simp]: "\<not> FAILED S_OK" "FAILED DXGI_ERROR_DEVICE_REMOVED" "FAILED E_NOINTERFACE"
  by (simp_all add: FAILED_def S_OK_def DXGI_ERROR_DEVICE_REMOVED_def E_NOINTERFACE_def)

lemma Unspecified_minus1: "UnspecifiedFenceValue = - 1"
  by (simp add: UnspecifiedFenceValue_def)

lemma Unspecified_top: "v \<le> UnspecifiedFenceValue"
  by (simp add: Unspecified_minus1)

lemma queue_Signal_evolves: "queue_Signal q f v w = (hr, w1) \<Longrightarrow> evolves w w1"
  using evolves_queue_Signal [OF evolves.same, of w q f v] by simp

lemma queue_Wait_evolves: "queue_Wait q f v w = (hr, w1) \<Longrightarrow> evolves w w1"
  using evolves_queue_Wait [OF evolves.same, of w q f v] by simp

lemma GetCompletedValue_evolves: "fence_GetCompletedValue f w = (c, w1) \<Longrightarrow> evolves w w1"
  using evolves_GetCompletedValue [OF evolves.same, of w f] by simp

lemma SetEventOnCompletion_evolves:
  "fence_SetEventOnCompletion f v h w = (hr, w1) \<Longrightarrow> evolves w w1"
  using evolves_SetEventOnCompletion [OF evolves.same, of w f v h] by simp

subsection \<open>Signal\<close>

lemma Signal_unspecified_cases:
  "\<exists>w1. ends_in (Signal this UnspecifiedFenceValue w)
           (this\<lparr>m_currentFenceValue := m_currentFenceValue this + 1\<rparr>, w1) \<and>
      calls w1 = calls w @ [ID3D12CommandQueue_Signal (m_queue this) (m_fence this)
                              (m_currentFenceValue this + 1)]"
  by (auto simp: Signal_def CRT_ASSERT_def ThrowIfFailed_def queue_Signal_def Let_def log_call_def ends_in_def
      split: prod.splits)

lemma Signal_explicit_cases:
  "val \<noteq> UnspecifiedFenceValue \<Longrightarrow> m_currentFenceValue this < val \<Longrightarrow>
   \<exists>w1. ends_in (Signal this val w) (this\<lparr>m_currentFenceValue := val\<rparr>, w1) \<and>
      calls w1 = calls w @ [ID3D12CommandQueue_Signal (m_queue this) (m_fence this) val]"
  by (auto simp: Signal_def CRT_ASSERT_def ThrowIfFailed_def queue_Signal_def Let_def log_call_def ends_in_def
      split: prod.splits)

lemma Signal_stale:
  "val \<noteq> UnspecifiedFenceValue \<Longrightarrow> val \<le> m_currentFenceValue this \<Longrightarrow> crt_debug w \<Longrightarrow>
   Signal this val w = Failed AssertionFailed (this, w)"
  by (auto simp: Signal_def CRT_ASSERT_def)

lemma Signal_unchecked:
  "val \<noteq> UnspecifiedFenceValue \<Longrightarrow> \<not> crt_debug w \<Longrightarrow>
   \<exists>w1. ends_in (Signal this val w) (this\<lparr>m_currentFenceValue := val\<rparr>, w1) \<and>
      calls w1 = calls w @ [ID3D12CommandQueue_Signal (m_queue this) (m_fence this) val] \<and>
      (\<not> device_removed w \<longrightarrow>
         Signal this val w = Done (this\<lparr>m_currentFenceValue := val\<rparr>, w1) \<and>
         pending w1 (m_queue this) =
           pending (advance w) (m_queue this) @ [SignalCmd (m_fence this) val])"
  by (auto simp: Signal_def CRT_ASSERT_def ThrowIfFailed_def queue_Signal_def Let_def
      log_call_def ends_in_def split: prod.splits)

lemma Signal_evolves: "ends_in (Signal this val w) (t, w') \<Longrightarrow> evolves w w'"
  by (auto simp: Signal_def CRT_ASSERT_def ThrowIfFailed_def ends_in_def evolves.same
      split: prod.splits if_splits dest: queue_Signal_evolves)

lemma Signal_fields:
  "ends_in (Signal this val w) (t, w') \<Longrightarrow>
     t = this\<lparr>m_currentFenceValue := m_currentFenceValue t\<rparr>"
  by (auto simp: Signal_def CRT_ASSERT_def ThrowIfFailed_def ends_in_def
      split: prod.splits if_splits)

subsection \<open>GpuWait and CpuWait\<close>

lemma GpuWait_static_ends:
  "\<exists>w'. ends_in (GpuWait_static q this val w) (this, w') \<and> evolves w w'"
  by (auto simp: GpuWait_static_def ThrowIfFailed_def ends_in_def Let_def
      split: prod.splits dest: queue_Wait_evolves)

lemma CpuWait_state: "ends_in (CpuWait this v w) (t, w') \<Longrightarrow> t = this \<and> evolves w w'"
  by (auto simp: CpuWait_def ThrowIfFailed_def ends_in_def Let_def
      split: prod.splits if_splits option.splits
      dest!: GetCompletedValue_evolves SetEventOnCompletion_evolves
      dest: evolves_WaitForSingleObjectEx evolves_trans)

lemma CpuWait_reached:
  "CpuWait this v w = Done (t, w') \<Longrightarrow>
     (if v = UnspecifiedFenceValue then m_currentFenceValue this else v)
       \<le> completed w' (m_fence this)"
  by (auto simp: CpuWait_def ThrowIfFailed_def Let_def
      split: prod.splits if_splits option.splits
      dest!: GetCompletedValue_result SetEventOnCompletion_result WaitForSingleObjectEx_result)


lemma FlushGpuQueue_state:
  assumes "ends_in (FlushGpuQueue this w) (t, w')"
  shows "t = this\<lparr>m_currentFenceValue := m_currentFenceValue this + 1\<rparr> \<and> evolves w w'"
proof -
  from Signal_unspecified_cases [of this w] obtain w1 where
    s: "ends_in (Signal this UnspecifiedFenceValue w)
       (this\<lparr>m_currentFenceValue := m_currentFenceValue this + 1\<rparr>, w1)"
    by blast
  let ?t = "this\<lparr>m_currentFenceValue := m_currentFenceValue this + 1\<rparr>"
  from s have e1: "evolves w w1" by (rule Signal_evolves)
  from s consider
    (ok) "Signal this UnspecifiedFenceValue w = Done (?t, w1)"
    | (thrown) e where "Signal this UnspecifiedFenceValue w = Failed e (?t, w1)"
    by (auto simp: ends_in_def)
  then show ?thesis
  proof cases
    case ok
    with assms have "ends_in (CpuWait ?t (m_currentFenceValue ?t) w1) (t, w')"
      by (simp add: FlushGpuQueue_def)
    from CpuWait_state [OF this] e1 show ?thesis
      by (auto intro: evolves_trans)
  next
    case thrown
    with assms e1 show ?thesis
      by (auto simp: FlushGpuQueue_def ends_in_def)
  qed
qed


subsection \<open>Next\<close>

lemma Next_index:
  fixes i :: uint
  assumes "unat i < n" "n < 2 ^ 32"
  shows "unat (word_of_nat (unat (i + 1) mod n) :: uint) = Suc (unat i) mod n"
proof -
  from assms have "unat i + 1 < 2 ^ 32" by simp
  then have "unat (i + 1) = Suc (unat i)"
    by (simp add: unat_word_ariths)
  moreover have "Suc (unat i) mod n < 2 ^ 32"
  proof -
    from assms have "0 < n" by simp
    then have "Suc (unat i) mod n < n" by simp
    from this assms(2) show ?thesis by (rule less_trans)
  qed
  ultimately show ?thesis
    by (simp add: unat_of_nat)
qed

lemma Next_cursor:
  fixes i :: uint
  assumes "0 < n"
  shows "unat (word_of_nat (unat (i + 1) mod n) :: uint) = unat (i + 1) mod n"
    and "unat (i + 1) mod n < n"
    and "\<not> n \<le> unat (i + 1) mod n"
proof -
  have "unat (i + 1) mod n \<le> unat (i + 1)" by simp
  moreover have "unat (i + 1) < 2 ^ 32"
    using unsigned_less [of "i + 1", where ?'a = nat] by simp
  ultimately have "unat (i + 1) mod n < 2 ^ 32" by (rule le_less_trans)
  then show "unat (word_of_nat (unat (i + 1) mod n) :: uint) = unat (i + 1) mod n"
    by (simp add: unat_of_nat)
  from assms show "unat (i + 1) mod n < n" by simp
  then show "\<not> n \<le> unat (i + 1) mod n" by simp
qed

lemma Next_steps:
  assumes "in_bounds this"
  shows "Next this w =
     CpuWait
       (this\<lparr>m_signalHistory :=
                (m_signalHistory this)[unat (m_signalIndex this) := m_currentFenceValue this],
             m_signalIndex :=
                word_of_nat (unat (m_signalIndex this + 1) mod length (m_signalHistory this))\<rparr>)
       ((m_signalHistory this)[unat (m_signalIndex this) := m_currentFenceValue this]
          ! (unat (m_signalIndex this + 1) mod length (m_signalHistory this)))
       w"
proof -
  from assms have n: "0 < length (m_signalHistory this)"
    by (auto simp: in_bounds_def)
  from assms n Next_cursor [OF n, of "m_signalIndex this"] show ?thesis
    by (simp add: Next_def in_bounds_def Let_def)
qed

lemma Next_out_of_bounds:
  "\<not> in_bounds this \<Longrightarrow> Next this w = Failed SubscriptOutOfRange (this, w)"
  by (simp add: Next_def in_bounds_def Let_def)

lemma Next_state:
  assumes "in_bounds this" and "ends_in (Next this w) (t, w')"
  shows "t = this\<lparr>m_signalHistory :=
                (m_signalHistory this)[unat (m_signalIndex this) := m_currentFenceValue this],
             m_signalIndex :=
                word_of_nat (unat (m_signalIndex this + 1) mod length (m_signalHistory this))\<rparr>"
    and "evolves w w'"
    and "in_bounds t"
proof -
  let ?t = "this\<lparr>m_signalHistory :=
                (m_signalHistory this)[unat (m_signalIndex this) := m_currentFenceValue this],
             m_signalIndex :=
                word_of_nat (unat (m_signalIndex this + 1) mod length (m_signalHistory this))\<rparr>"
  from assms have "ends_in (CpuWait ?t
       ((m_signalHistory this)[unat (m_signalIndex this) := m_currentFenceValue this]
          ! (unat (m_signalIndex this + 1) mod length (m_signalHistory this))) w) (t, w')"
    by (simp add: Next_steps)
  from CpuWait_state [OF this] show t: "t = ?t" and "evolves w w'"
    by simp_all
  from assms(1) have n: "0 < length (m_signalHistory this)"
    by (auto simp: in_bounds_def)
  from Next_cursor [OF n, of "m_signalIndex this"] t show "in_bounds t"
    by (simp add: in_bounds_def)
qed

lemma Next_reached:
  assumes "in_bounds this" and "Next this w = Done (t, w')"
    and "x = m_signalHistory t ! unat (m_signalIndex t)"
  shows "(if x = UnspecifiedFenceValue then m_currentFenceValue this else x)
           \<le> completed w' (m_fence this)"
proof -
  let ?t = "this\<lparr>m_signalHistory :=
                (m_signalHistory this)[unat (m_signalIndex this) := m_currentFenceValue this],
             m_signalIndex :=
                word_of_nat (unat (m_signalIndex this + 1) mod length (m_signalHistory this))\<rparr>"
  let ?x = "(m_signalHistory this)[unat (m_signalIndex this) := m_currentFenceValue this]
          ! (unat (m_signalIndex this + 1) mod length (m_signalHistory this))"
  from assms(1,2) have c: "CpuWait ?t ?x w = Done (t, w')"
    by (simp add: Next_steps)
  from assms(1) have n: "0 < length (m_signalHistory this)"
    by (auto simp: in_bounds_def)
  from assms(2) have e: "ends_in (Next this w) (t, w')"
    by (simp add: ends_in_def)
  from Next_state(1) [OF assms(1) e] have "t = ?t" .
  with assms(3) Next_cursor [OF n, of "m_signalIndex this"] have "x = ?x"
    by simp
  with CpuWait_reached [OF c] show ?thesis
    by (simp split: if_splits)
qed

subsection \<open>Runs\<close>

lemma exec_state:
  assumes "in_bounds this" and "ends_in (exec c this w) (t, w')"
  shows "evolves w w'" and "in_bounds t"
    and "m_fence t = m_fence this \<and> m_queue t = m_queue this \<and>
         m_fenceEvent t = m_fenceEvent this \<and>
         length (m_signalHistory t) = length (m_signalHistory this)"
    and "c \<noteq> DoNext \<Longrightarrow>
         m_signalHistory t = m_signalHistory this \<and> m_signalIndex t = m_signalIndex this"
proof -
  have "evolves w w' \<and> in_bounds t \<and>
        (m_fence t = m_fence this \<and> m_queue t = m_queue this \<and>
         m_fenceEvent t = m_fenceEvent this \<and>
         length (m_signalHistory t) = length (m_signalHistory this)) \<and>
        (c \<noteq> DoNext \<longrightarrow>
         m_signalHistory t = m_signalHistory this \<and> m_signalIndex t = m_signalIndex this)"
  proof (cases c)
    case (DoSignal v)
    with assms(2) have e: "ends_in (Signal this v w) (t, w')" by simp
    from Signal_fields [OF e] obtain c where "t = this\<lparr>m_currentFenceValue := c\<rparr>" ..
    with Signal_evolves [OF e] assms(1) show ?thesis
      by (simp add: in_bounds_def)
  next
    case (DoGpuWait v)
    with assms(2) GpuWait_static_ends [of "m_queue this" this v w] assms(1) show ?thesis
      by (auto simp: GpuWait_def ends_in_def)
  next
    case (DoGpuWaitOn q v)
    with assms(2) GpuWait_static_ends [of q this v w] assms(1) show ?thesis
      by (auto simp: ends_in_def)
  next
    case DoFlushGpuQueue
    with assms(2) have "ends_in (FlushGpuQueue this w) (t, w')" by simp
    from FlushGpuQueue_state [OF this] assms(1) show ?thesis
      by (simp add: in_bounds_def)
  next
    case DoNext
    with assms(2) have e: "ends_in (Next this w) (t, w')" by simp
    from Next_state(2,3) [OF assms(1) e] DoNext show ?thesis
      by (simp add: Next_state(1) [OF assms(1) e])
  qed
  then show "evolves w w'" and "in_bounds t"
    and "m_fence t = m_fence this \<and> m_queue t = m_queue this \<and>
         m_fenceEvent t = m_fenceEvent this \<and>
         length (m_signalHistory t) = length (m_signalHistory this)"
    and "c \<noteq> DoNext \<Longrightarrow>
         m_signalHistory t = m_signalHistory this \<and> m_signalIndex t = m_signalIndex this"
    by simp_all
qed

subsection \<open>What evolution keeps\<close>

lemma ends_in_Done: "r = Done s \<Longrightarrow> ends_in r s"
  by (simp add: ends_in_def)

lemma has_reached_now: "x \<le> completed w f \<Longrightarrow> has_reached w f x"
  by (simp add: has_reached_def)

lemma has_reached_gpu_step: "has_reached w f x \<Longrightarrow> has_reached (gpu_step q w) f x"
  by (auto simp: has_reached_def gpu_step_def list_ex_iff split: list.splits command.splits)

lemma has_reached_evolves: "evolves w w' \<Longrightarrow> has_reached w f x \<Longrightarrow> has_reached w' f x"
  by (induction rule: evolves.induct)
     (auto simp: has_reached_gpu_step, auto simp: has_reached_def)

lemma guarded_gpu_step:
  assumes "guarded w q p f v"
  shows "guarded (gpu_step q' w) q p f v"
proof (cases "has_reached w f v")
  case True
  then show ?thesis by (simp add: guarded_def has_reached_gpu_step)
next
  case False
  with assms have s: "stalls_at w q p f v" by (simp add: guarded_def)
  show ?thesis
  proof (cases "q' = q")
    case False
    with s have "stalls_at (gpu_step q' w) q p f v"
      by (auto simp: stalls_at_def gpu_step_def split: list.splits command.splits)
    then show ?thesis by (simp add: guarded_def)
  next
    case True
    from s obtain c cs where pq: "pending w q = c # cs"
      by (cases "pending w q") (auto simp: stalls_at_def)
    show ?thesis
    proof (cases "retired w q = p")
      case True
      with s pq have c: "c = WaitCmd f v" by (simp add: stalls_at_def)
      show ?thesis
      proof (cases "v \<le> completed w f")
        case True
        then have "has_reached w f v" by (rule has_reached_now)
        then show ?thesis by (simp add: guarded_def has_reached_gpu_step)
      next
        case False
        with pq c \<open>q' = q\<close> have "gpu_step q' w = w" by (simp add: gpu_step_def)
        with assms show ?thesis by simp
      qed
    next
      case False
      with s have lt: "retired w q < p" by (simp add: stalls_at_def)
      then have idx: "p - retired w q = Suc (p - Suc (retired w q))" by simp
      from s pq lt \<open>q' = q\<close> have "stalls_at (gpu_step q' w) q p f v \<or> gpu_step q' w = w"
        by (cases c) (auto simp: stalls_at_def gpu_step_def idx)
      with assms show ?thesis by (auto simp: guarded_def)
    qed
  qed
qed

lemma guarded_enqueue:
  assumes "guarded w q p f v"
  shows "guarded (w\<lparr>pending := (pending w)(q' := pending w q' @ [c])\<rparr>) q p f v"
  using assms by (auto simp: guarded_def stalls_at_def has_reached_def nth_append)

lemma guarded_evolves: "evolves w w' \<Longrightarrow> guarded w q p f v \<Longrightarrow> guarded w' q p f v"
proof (induction rule: evolves.induct)
  case (same w)
  then show ?case by simp
next
  case (step w w1 q')
  then show ?case by (simp add: guarded_gpu_step)
next
  case (enqueue w w1 q' c)
  then show ?case by (simp add: guarded_enqueue)
next
  case (other w w1 w2)
  then show ?case by (simp add: guarded_def stalls_at_def has_reached_def)
qed

lemma guarded_passed: "guarded w q p f v \<Longrightarrow> p < retired w q \<Longrightarrow> has_reached w f v"
  by (auto simp: guarded_def stalls_at_def)

lemma evolves_ticks: "evolves w (fold gpu_tick ts w)"
proof (induction ts rule: rev_induct)
  case Nil
  show ?case by (simp add: evolves.same)
next
  case (snoc t ts)
  then show ?case by (simp add: evolves_tick)
qed

lemma exec_evolves: "ends_in (exec c this w) (t, w') \<Longrightarrow> evolves w w'"
proof (cases "in_bounds this \<or> c \<noteq> DoNext")
  case True
  assume e: "ends_in (exec c this w) (t, w')"
  show ?thesis
  proof (cases c)
    case (DoSignal v)
    with e show ?thesis by (auto dest: Signal_evolves)
  next
    case (DoGpuWait v)
    with e GpuWait_static_ends [of "m_queue this" this v w] show ?thesis
      by (auto simp: GpuWait_def ends_in_def)
  next
    case (DoGpuWaitOn q v)
    with e GpuWait_static_ends [of q this v w] show ?thesis
      by (auto simp: ends_in_def)
  next
    case DoFlushGpuQueue
    with e show ?thesis by (auto dest: FlushGpuQueue_state)
  next
    case DoNext
    with True e show ?thesis by (auto dest: Next_state(2))
  qed
next
  case False
  assume "ends_in (exec c this w) (t, w')"
  with False show ?thesis
    by (auto simp: Next_out_of_bounds ends_in_def evolves.same)
qed

lemma run_evolves: "run cs this w recs = Done ((t, w'), recs') \<Longrightarrow> evolves w w'"
proof (induction cs arbitrary: this w recs)
  case Nil
  then show ?case by (simp add: evolves.same)
next
  case (Cons c cs)
  from Cons.prems obtain t1 w1 where e: "exec c this w = Done (t1, w1)"
    and r: "run cs t1 w1 (if c = DoNext then m_currentFenceValue this # recs else recs)
              = Done ((t, w'), recs')"
    by (cases "exec c this w") auto
  from e have "evolves w w1" by (rule exec_evolves [OF ends_in_Done])
  with Cons.IH [OF r] show ?case by (rule evolves_trans)
qed

subsection \<open>The ring buffer\<close>

lemma Fence_ctor_result:
  "Fence_ctor pQueue w = Done (f0, w0) \<Longrightarrow>
     m_currentFenceValue f0 = 0 \<and> m_queue f0 = pQueue"
  by (auto simp: Fence_ctor_def ThrowIfFailed_def Let_def split: prod.splits if_splits)

lemma LinearFence_ctor_result:
  "LinearFence_ctor pQueue count w = Done (lf, w0) \<Longrightarrow>
     m_currentFenceValue lf = 0 \<and> m_queue lf = pQueue \<and>
     m_signalHistory lf = replicate (unat count) 0 \<and> m_signalIndex lf = 0"
  by (cases "Fence_ctor pQueue w")
     (auto simp: LinearFence_ctor_def dest: Fence_ctor_result)

lemma LinearFence_ctor_throttled:
  assumes "LinearFence_ctor pQueue count w = Done (lf, w0)" and "count \<noteq> 0"
  shows "throttled lf w0 []" and "in_bounds lf"
proof -
  from assms(2) have "0 < unat count" by (simp add: unat_gt_0)
  moreover have "unat count < 2 ^ 32"
    using unsigned_less [of count, where ?'a = nat] by simp
  ultimately show "throttled lf w0 []" and "in_bounds lf"
    using LinearFence_ctor_result [OF assms(1)]
    by (simp_all add: throttled_def in_bounds_def)
qed

lemma mod_differs:
  fixes m k n :: nat
  assumes "m < k" and "k < m + n"
  shows "m mod n \<noteq> k mod n"
proof
  assume "m mod n = k mod n"
  with assms(1) have "n dvd k - m"
    by (metis less_imp_le_nat mod_eq_dvd_iff_nat)
  moreover from assms have "0 < k - m" and "k - m < n" by simp_all
  ultimately show False by (simp add: nat_dvd_not_less)
qed

lemma throttled_in_bounds: "throttled this w recs \<Longrightarrow> in_bounds this"
  by (simp add: throttled_def in_bounds_def Let_def)

lemma throttled_Next:
  assumes inv: "throttled this w recs" and nx: "Next this w = Done (t, w')"
  shows "throttled t w' (m_currentFenceValue this # recs)"
proof -
  let ?n = "length (m_signalHistory this)"
  let ?k = "length recs"
  let ?c = "m_currentFenceValue this"
  let ?h = "(m_signalHistory this)[unat (m_signalIndex this) := ?c]"
  from inv have n: "0 < ?n" "?n < 2 ^ 32" and cur: "unat (m_signalIndex this) = ?k mod ?n"
    and ring: "\<And>m. m < ?k \<Longrightarrow> ?k \<le> m + ?n \<Longrightarrow>
                 m_signalHistory this ! (m mod ?n) = recs ! (?k - 1 - m)"
    and reached: "\<And>i. i < ?k \<Longrightarrow> ?n \<le> Suc i \<Longrightarrow> recs ! i \<noteq> UnspecifiedFenceValue \<Longrightarrow>
                 has_reached w (m_fence this) (recs ! i)"
    by (simp_all add: throttled_def Let_def)
  from inv have ib: "in_bounds this" by (rule throttled_in_bounds)
  from nx have e: "ends_in (Next this w) (t, w')" by (rule ends_in_Done)
  note t = Next_state(1) [OF ib e]
  note ev = Next_state(2) [OF ib e]
  from t have ht: "m_signalHistory t = ?h" and ft: "m_fence t = m_fence this" by simp_all
  from ib n have "unat (m_signalIndex this) < ?n" by (simp add: in_bounds_def)
  from Next_index [OF this n(2)] t cur
  have cur': "unat (m_signalIndex t) = Suc ?k mod ?n"
    by (simp add: mod_Suc_eq)
  have ring': "m_signalHistory t ! (m mod ?n) = (?c # recs) ! (Suc ?k - 1 - m)"
    if "m < Suc ?k" and "Suc ?k \<le> m + ?n" for m
  proof (cases "m = ?k")
    case True
    with n ht cur show ?thesis by simp
  next
    case False
    with that have lt: "m < ?k" and le: "?k \<le> m + ?n" and "?k < m + ?n" by simp_all
    then have "m mod ?n \<noteq> ?k mod ?n" by (intro mod_differs)
    with ht cur have "m_signalHistory t ! (m mod ?n) = m_signalHistory this ! (m mod ?n)"
      by simp
    also from ring [OF lt le] have "\<dots> = recs ! (?k - 1 - m)" .
    also from lt have "\<dots> = (?c # recs) ! (Suc ?k - 1 - m)"
      by (simp add: Suc_diff_le less_imp_le_nat Suc_diff_Suc)
    finally show ?thesis .
  qed
  have reached': "has_reached w' (m_fence t) ((?c # recs) ! i)"
    if i: "i < Suc ?k" and ni: "?n \<le> Suc i" and u: "(?c # recs) ! i \<noteq> UnspecifiedFenceValue"
    for i
  proof (cases "Suc i = ?n")
    case True
    let ?m = "Suc ?k - ?n"
    from True i have m: "?m < Suc ?k" "Suc ?k \<le> ?m + ?n" using n by simp_all
    from True i have "?n \<le> Suc ?k" by simp
    then have "?m mod ?n = Suc ?k mod ?n" by (simp add: le_mod_geq)
    with ring' [OF m] cur' have "m_signalHistory t ! unat (m_signalIndex t)
        = (?c # recs) ! (Suc ?k - 1 - ?m)" by simp
    also from True i have "Suc ?k - 1 - ?m = i" by simp
    finally have x: "(?c # recs) ! i = m_signalHistory t ! unat (m_signalIndex t)" by simp
    from Next_reached [OF ib nx x] u have "(?c # recs) ! i \<le> completed w' (m_fence this)"
      by (simp split: if_splits)
    with ft show ?thesis by (simp add: has_reached_now)
  next
    case False
    with ni have "?n \<le> i" by simp
    with n obtain j where j: "i = Suc j" by (cases i) simp_all
    with i ni False u have "j < ?k" "?n \<le> Suc j" "recs ! j \<noteq> UnspecifiedFenceValue"
      by simp_all
    from reached [OF this] have "has_reached w (m_fence this) (recs ! j)" .
    from has_reached_evolves [OF ev this] j ft show ?thesis by simp
  qed
  from n ht cur' ring' reached' show ?thesis
    by (simp add: throttled_def Let_def)
qed

lemma throttled_other:
  assumes inv: "throttled this w recs" and c: "c \<noteq> DoNext"
    and ex: "exec c this w = Done (t, w')"
  shows "throttled t w' recs"
proof -
  from inv have ib: "in_bounds this" by (rule throttled_in_bounds)
  from ex have e: "ends_in (exec c this w) (t, w')" by (rule ends_in_Done)
  from exec_state(1,3) [OF ib e] exec_state(4) [OF ib e c] inv show ?thesis
    by (auto simp: throttled_def Let_def dest: has_reached_evolves)
qed

lemma throttled_run:
  "throttled this w recs \<Longrightarrow> run cs this w recs = Done ((t, w'), recs') \<Longrightarrow>
     throttled t w' recs'"
proof (induction cs arbitrary: this w recs)
  case Nil
  then show ?case by simp
next
  case (Cons c cs)
  from Cons.prems(2) obtain t1 w1 where e: "exec c this w = Done (t1, w1)"
    and r: "run cs t1 w1 (if c = DoNext then m_currentFenceValue this # recs else recs)
              = Done ((t, w'), recs')"
    by (cases "exec c this w") auto
  have "throttled t1 w1 (if c = DoNext then m_currentFenceValue this # recs else recs)"
  proof (cases "c = DoNext")
    case True
    with e throttled_Next [OF Cons.prems(1)] show ?thesis by simp
  next
    case False
    with throttled_other [OF Cons.prems(1) False e] show ?thesis by simp
  qed
  from Cons.IH [OF this r] show ?case .
qed

subsection \<open>Calls that return\<close>

lemma Signal_returns:
  assumes "\<not> device_removed w" and "val = UnspecifiedFenceValue \<or> m_currentFenceValue this < val"
  shows "\<exists>w1. Signal this val w =
            Done (this\<lparr>m_currentFenceValue :=
                    (if val = UnspecifiedFenceValue then m_currentFenceValue this + 1 else val)\<rparr>, w1)
          \<and> \<not> device_removed w1"
  using assms
  by (auto simp: Signal_def CRT_ASSERT_def ThrowIfFailed_def queue_Signal_def Let_def log_call_def)

lemma Fence_ctor_returns:
  assumes "pQueue \<in> set (queues w)" and "\<not> device_removed w" and "os_handles w = h # hs"
    and "h \<noteq> NULL"
  shows "\<exists>w0. Fence_ctor pQueue w =
            Done (\<lparr>m_fence = next_fence w, m_queue = pQueue, m_currentFenceValue = 0,
                    m_fenceEvent = h\<rparr>, w0)
          \<and> \<not> device_removed w0"
  using assms
  by (auto simp: Fence_ctor_def ThrowIfFailed_def Let_def queue_QueryInterface_def
      queue_GetDevice_def device_CreateFence_def CreateEvent_def log_call_def)

lemma idle_world_facts:
  "0 \<in> set (queues idle_world)" "\<not> device_removed idle_world"
  "os_handles idle_world = 1 # [2, 3]" "(1::handle) \<noteq> NULL" "next_fence idle_world = 0"
  by (simp_all add: idle_world_def NULL_def)

lemma Signals_counter:
  "Signals n this w = Done (t, w') \<Longrightarrow>
     m_currentFenceValue t = m_currentFenceValue this + of_nat n"
proof (induction n arbitrary: this w)
  case 0
  then show ?case by simp
next
  case (Suc n)
  let ?t = "this\<lparr>m_currentFenceValue := m_currentFenceValue this + 1\<rparr>"
  from Signal_unspecified_cases [of this w] obtain w1 where
    "ends_in (Signal this UnspecifiedFenceValue w) (?t, w1)"
    by blast
  with Suc.prems have "Signals n ?t w1 = Done (t, w')"
    by (auto simp: ends_in_def)
  from Suc.IH [OF this] show ?case
    by (simp add: add.assoc add.commute)
qed

text \<open>
  C2. Every call of \<^verbatim>\<open>Signal\<close> with no value adds exactly 1 to the counter, in 64-bit
  arithmetic, whether the native call then succeeds or throws; \<open>n\<close> such calls that return
  add \<open>n\<close>; and on a fence that the constructor has just returned, three such calls leave
  the counters 1, 2 and 3. The sum is taken in \<open>u64\<close>: below the largest value it is the
  sum of the numbers.
\<close>

theorem Signal_increments_counter:
  "(\<exists>w1. ends_in (Signal this UnspecifiedFenceValue w)
            (this\<lparr>m_currentFenceValue := m_currentFenceValue this + 1\<rparr>, w1)) \<and>
   (m_currentFenceValue this \<noteq> UnspecifiedFenceValue \<longrightarrow>
      unat (m_currentFenceValue this + 1) = unat (m_currentFenceValue this) + 1) \<and>
   (\<forall>n t w'. Signals n this w = Done (t, w') \<longrightarrow>
      m_currentFenceValue t = m_currentFenceValue this + of_nat n) \<and>
   (\<forall>f0 w0 f1 w1 f2 w2 f3 w3.
      Fence_ctor pQueue w = Done (f0, w0) \<longrightarrow>
      Signal f0 UnspecifiedFenceValue w0 = Done (f1, w1) \<longrightarrow>
      Signal f1 UnspecifiedFenceValue w1 = Done (f2, w2) \<longrightarrow>
      Signal f2 UnspecifiedFenceValue w2 = Done (f3, w3) \<longrightarrow>
      map m_currentFenceValue [f0, f1, f2, f3] = [0, 1, 2, 3])"
proof (intro conjI allI impI)
  show "\<exists>w1. ends_in (Signal this UnspecifiedFenceValue w)
            (this\<lparr>m_currentFenceValue := m_currentFenceValue this + 1\<rparr>, w1)"
    using Signal_unspecified_cases [of this w] by blast
next
  assume "m_currentFenceValue this \<noteq> UnspecifiedFenceValue"
  then have "m_currentFenceValue this + 1 \<noteq> 0"
    by (simp add: Unspecified_minus1 add_eq_0_iff2)
  then show "unat (m_currentFenceValue this + 1) = unat (m_currentFenceValue this) + 1"
    by (simp add: unatSuc add.commute)
next
  fix n t w'
  assume "Signals n this w = Done (t, w')"
  then show "m_currentFenceValue t = m_currentFenceValue this + of_nat n"
    by (rule Signals_counter)
next
  fix f0 w0 f1 w1 f2 w2 f3 w3
  assume c: "Fence_ctor pQueue w = Done (f0, w0)"
    and s1: "Signal f0 UnspecifiedFenceValue w0 = Done (f1, w1)"
    and s2: "Signal f1 UnspecifiedFenceValue w1 = Done (f2, w2)"
    and s3: "Signal f2 UnspecifiedFenceValue w2 = Done (f3, w3)"
  have step: "m_currentFenceValue b = m_currentFenceValue a + 1"
    if "Signal a UnspecifiedFenceValue x = Done (b, y)" for a b :: Fence and x y
    using that Signal_unspecified_cases [of a x] by (auto simp: ends_in_def)
  from Fence_ctor_result [OF c] step [OF s1] step [OF s2] step [OF s3]
  show "map m_currentFenceValue [f0, f1, f2, f3] = [0, 1, 2, 3]"
    by simp
qed

theorem Signal_increments_counter_witness:
  "\<exists>f0 w0 f1 w1 f2 w2 f3 w3.
      Fence_ctor 0 idle_world = Done (f0, w0) \<and>
      Signal f0 UnspecifiedFenceValue w0 = Done (f1, w1) \<and>
      Signal f1 UnspecifiedFenceValue w1 = Done (f2, w2) \<and>
      Signal f2 UnspecifiedFenceValue w2 = Done (f3, w3) \<and>
      Signals 3 f0 w0 = Done (f3, w3) \<and>
      m_currentFenceValue f3 = m_currentFenceValue f0 + 3 \<and>
      unat (m_currentFenceValue f0 + 1) = unat (m_currentFenceValue f0) + 1 \<and>
      map m_currentFenceValue [f0, f1, f2, f3] = [0, 1, 2, 3]"
proof -
  from Fence_ctor_returns [OF idle_world_facts(1-4)] obtain f0 w0 where
    c: "Fence_ctor 0 idle_world = Done (f0, w0)" and d0: "\<not> device_removed w0"
    by blast
  from Signal_returns [OF d0, of UnspecifiedFenceValue f0] obtain f1 w1 where
    s1: "Signal f0 UnspecifiedFenceValue w0 = Done (f1, w1)" and d1: "\<not> device_removed w1"
    by auto
  from Signal_returns [OF d1, of UnspecifiedFenceValue f1] obtain f2 w2 where
    s2: "Signal f1 UnspecifiedFenceValue w1 = Done (f2, w2)" and d2: "\<not> device_removed w2"
    by auto
  from Signal_returns [OF d2, of UnspecifiedFenceValue f2] obtain f3 w3 where
    s3: "Signal f2 UnspecifiedFenceValue w2 = Done (f3, w3)"
    by auto
  from s1 s2 s3 have n: "Signals 3 f0 w0 = Done (f3, w3)"
    by (simp add: numeral_3_eq_3)
  note T = Signal_increments_counter [of f0 w0 0]
  note S = Signal_increments_counter [of this idle_world 0 for this :: Fence]
  from Fence_ctor_result [OF c] have z: "m_currentFenceValue f0 \<noteq> UnspecifiedFenceValue"
    by (simp add: UnspecifiedFenceValue_def)
  from T n have a1: "m_currentFenceValue f3 = m_currentFenceValue f0 + 3"
    by fastforce
  from T z have a2: "unat (m_currentFenceValue f0 + 1) = unat (m_currentFenceValue f0) + 1"
    by blast
  from S c s1 s2 s3 have a3: "map m_currentFenceValue [f0, f1, f2, f3] = [0, 1, 2, 3]"
    by blast
  show ?thesis
    by (intro exI conjI) (rule c s1 s2 s3 n a1 a2 a3)+
qed

lemmas run_simps =
  Signal_def CRT_ASSERT_def queue_Signal_def queue_Wait_def GpuWait_def GpuWait_static_def CpuWait_def
  FlushGpuQueue_def Next_def fence_GetCompletedValue_def fence_SetEventOnCompletion_def
  WaitForSingleObjectEx_def advance_def log_call_def ThrowIfFailed_def FAILED_def S_OK_def
  UnspecifiedFenceValue_def Let_def gpu_step_def has_reached_def

lemma next_to_top:
  fixes c :: u64
  shows "(c + 1 = 0xFFFFFFFFFFFFFFFF) = (c = 0xFFFFFFFFFFFFFFFE)"
proof -
  have "(c + 1 = 0xFFFFFFFFFFFFFFFF) = (c = 0xFFFFFFFFFFFFFFFF - 1)"
    by (simp only: eq_diff_eq)
  also have "(0xFFFFFFFFFFFFFFFF :: u64) - 1 = 0xFFFFFFFFFFFFFFFE"
    by simp
  finally show ?thesis .
qed

text \<open>
  C3 (as amended). \<^verbatim>\<open>Signal(v)\<close> with a value \<open>v\<close> that is not the reserved value
  \<open>2^64 - 1\<close> and is at most the counter violates the assertion \<^verbatim>\<open>value > counter\<close>. In a
  build with \<^verbatim>\<open>_DEBUG\<close> the call ends at the assertion: the counter keeps its value, no
  native call is made and nothing is put on the queue. In a build without \<^verbatim>\<open>_DEBUG\<close> the
  value is applied: the call ends with the counter at \<open>v\<close>, its one native call is the signal
  of \<open>v\<close>, and unless the device is removed it returns with that signal last on the queue.
\<close>

theorem Signal_rejects_stale_value:
  "val \<noteq> UnspecifiedFenceValue \<Longrightarrow> val \<le> m_currentFenceValue this \<Longrightarrow>
     (crt_debug w \<longrightarrow> Signal this val w = Failed AssertionFailed (this, w)) \<and>
     (\<not> crt_debug w \<longrightarrow>
        (\<exists>w1. ends_in (Signal this val w) (this\<lparr>m_currentFenceValue := val\<rparr>, w1) \<and>
           calls w1 = calls w @ [ID3D12CommandQueue_Signal (m_queue this) (m_fence this) val] \<and>
           (\<not> device_removed w \<longrightarrow>
              Signal this val w = Done (this\<lparr>m_currentFenceValue := val\<rparr>, w1) \<and>
              pending w1 (m_queue this) =
                pending (advance w) (m_queue this) @ [SignalCmd (m_fence this) val])))"
  using Signal_stale [of val this w] Signal_unchecked [of val w this]
  by blast

theorem Signal_rejects_stale_value_witness:
  "Signal a_fence 0 idle_world = Failed AssertionFailed (a_fence, idle_world) \<and>
   Signal (a_fence\<lparr>m_currentFenceValue := 7\<rparr>) 7 idle_world =
     Failed AssertionFailed (a_fence\<lparr>m_currentFenceValue := 7\<rparr>, idle_world) \<and>
   (\<exists>w1. Signal (a_fence\<lparr>m_currentFenceValue := 7\<rparr>) 3 release_world =
      Done (a_fence\<lparr>m_currentFenceValue := 3\<rparr>, w1) \<and>
      calls w1 = [ID3D12CommandQueue_Signal 0 0 3] \<and>
      pending w1 0 = [SignalCmd 0 3])"
proof -
  have d: "crt_debug idle_world" "\<not> crt_debug release_world"
    "\<not> device_removed release_world" "calls release_world = []"
    "pending (advance release_world) 0 = []"
    by (simp_all add: idle_world_def release_world_def advance_def)
  have u: "(0::u64) \<noteq> UnspecifiedFenceValue" "(7::u64) \<noteq> UnspecifiedFenceValue"
    "(3::u64) \<noteq> UnspecifiedFenceValue"
    by (simp_all add: UnspecifiedFenceValue_def)
  have f: "m_queue a_fence = 0" "m_fence a_fence = 0" "m_currentFenceValue a_fence = 0"
    by (simp_all add: a_fence_def)
  from Signal_rejects_stale_value [of 0 a_fence idle_world] u d f
  have a1: "Signal a_fence 0 idle_world = Failed AssertionFailed (a_fence, idle_world)"
    by simp
  from Signal_rejects_stale_value [of 7 "a_fence\<lparr>m_currentFenceValue := 7\<rparr>" idle_world] u d
  have a2: "Signal (a_fence\<lparr>m_currentFenceValue := 7\<rparr>) 7 idle_world =
     Failed AssertionFailed (a_fence\<lparr>m_currentFenceValue := 7\<rparr>, idle_world)"
    by simp
  from Signal_rejects_stale_value [of 3 "a_fence\<lparr>m_currentFenceValue := 7\<rparr>" release_world]
    u d f
  have a3: "\<exists>w1. Signal (a_fence\<lparr>m_currentFenceValue := 7\<rparr>) 3 release_world =
      Done (a_fence\<lparr>m_currentFenceValue := 3\<rparr>, w1) \<and>
      calls w1 = [ID3D12CommandQueue_Signal 0 0 3] \<and>
      pending w1 0 = [SignalCmd 0 3]"
    by auto
  from a1 a2 a3 show ?thesis by blast
qed

text \<open>
  The claim as stated fails in a build without \<^verbatim>\<open>_DEBUG\<close>, and for the value \<open>2^64 - 1\<close>
  in every build. Without \<^verbatim>\<open>_DEBUG\<close>: on a new fence \<^verbatim>\<open>Signal(7)\<close> and then \<^verbatim>\<open>Signal(3)\<close>
  both return, and the second leaves the counter at 3 with the signal of 3 on the queue.
  With \<^verbatim>\<open>_DEBUG\<close>: two calls bring a new fence to the counter \<open>2^64 - 1\<close>; then
  \<^verbatim>\<open>Signal(0xFFFFFFFFFFFFFFFF)\<close>, whose value is not above the counter, returns, with the
  counter at 0 and a signal of 0 on the queue.
\<close>

theorem Signal_stale_value_applied:
  "(case Signal a_fence 7 release_world of
      Done (f1, w1) \<Rightarrow>
        m_currentFenceValue f1 = 7 \<and> 3 \<le> m_currentFenceValue f1 \<and>
        (case Signal f1 3 w1 of
           Done (f2, w2) \<Rightarrow>
             m_currentFenceValue f2 = 3 \<and>
             pending w2 0 = [SignalCmd 0 7, SignalCmd 0 3] \<and>
             calls w2 = [ID3D12CommandQueue_Signal 0 0 7, ID3D12CommandQueue_Signal 0 0 3]
         | Failed e s \<Rightarrow> False
         | Hang \<Rightarrow> False)
    | Failed e s \<Rightarrow> False
    | Hang \<Rightarrow> False) \<and>
   (case Signal a_fence 0xFFFFFFFFFFFFFFFE idle_world of
      Done (f1, w1) \<Rightarrow>
        (case Signal f1 UnspecifiedFenceValue w1 of
           Done (f2, w2) \<Rightarrow>
             m_currentFenceValue f2 = 0xFFFFFFFFFFFFFFFF \<and>
             0xFFFFFFFFFFFFFFFF \<le> m_currentFenceValue f2 \<and>
             (case Signal f2 0xFFFFFFFFFFFFFFFF w2 of
                Done (f3, w3) \<Rightarrow>
                  m_currentFenceValue f3 = 0 \<and>
                  pending w3 0 =
                    [SignalCmd 0 0xFFFFFFFFFFFFFFFE, SignalCmd 0 0xFFFFFFFFFFFFFFFF,
                     SignalCmd 0 0]
              | Failed e s \<Rightarrow> False
              | Hang \<Rightarrow> False)
         | Failed e s \<Rightarrow> False
         | Hang \<Rightarrow> False)
    | Failed e s \<Rightarrow> False
    | Hang \<Rightarrow> False)"
  by (simp add: run_simps a_fence_def idle_world_def release_world_def)

lemma word_less_Suc:
  fixes c :: u64
  assumes "c \<noteq> UnspecifiedFenceValue"
  shows "c < c + 1"
proof -
  from assms have "c + 1 \<noteq> 0"
    by (simp add: Unspecified_minus1 add_eq_0_iff2)
  then have "unat (c + 1) = Suc (unat c)"
    by (simp add: unatSuc add.commute)
  then show ?thesis
    by (simp add: word_less_nat_alt)
qed

text \<open>
  C7 (as amended). No operation makes the counter smaller, provided the counter is not
  \<open>2^64 - 1\<close> when \<^verbatim>\<open>Signal\<close> with no value, or \<^verbatim>\<open>FlushGpuQueue\<close>, is called. This holds
  for the state in which a call ends, by a return or by a throw.
\<close>

theorem counter_never_decreases:
  "(m_currentFenceValue this \<noteq> UnspecifiedFenceValue \<longrightarrow>
      ends_in (Signal this UnspecifiedFenceValue w) (t, w') \<longrightarrow>
      m_currentFenceValue this \<le> m_currentFenceValue t) \<and>
   (val \<noteq> UnspecifiedFenceValue \<longrightarrow> m_currentFenceValue this < val \<longrightarrow>
      ends_in (Signal this val w) (t, w') \<longrightarrow>
      m_currentFenceValue this \<le> m_currentFenceValue t) \<and>
   (ends_in (GpuWait this val w) (t, w') \<longrightarrow>
      m_currentFenceValue this \<le> m_currentFenceValue t) \<and>
   (ends_in (GpuWait_static q this val w) (t, w') \<longrightarrow>
      m_currentFenceValue this \<le> m_currentFenceValue t) \<and>
   (ends_in (CpuWait this val w) (t, w') \<longrightarrow>
      m_currentFenceValue this \<le> m_currentFenceValue t) \<and>
   (m_currentFenceValue this \<noteq> UnspecifiedFenceValue \<longrightarrow>
      ends_in (FlushGpuQueue this w) (t, w') \<longrightarrow>
      m_currentFenceValue this \<le> m_currentFenceValue t) \<and>
   (ends_in (Next lf w) (lt, w') \<longrightarrow>
      m_currentFenceValue lf \<le> m_currentFenceValue lt)"
proof (intro conjI impI)
  assume c: "m_currentFenceValue this \<noteq> UnspecifiedFenceValue"
    and e: "ends_in (Signal this UnspecifiedFenceValue w) (t, w')"
  from e Signal_unspecified_cases [of this w]
  have "m_currentFenceValue t = m_currentFenceValue this + 1"
    by (auto simp: ends_in_def)
  with word_less_Suc [OF c] show "m_currentFenceValue this \<le> m_currentFenceValue t"
    by simp
next
  assume v: "val \<noteq> UnspecifiedFenceValue" "m_currentFenceValue this < val"
    and e: "ends_in (Signal this val w) (t, w')"
  from e Signal_explicit_cases [OF v, of w] have "m_currentFenceValue t = val"
    by (auto simp: ends_in_def)
  with v show "m_currentFenceValue this \<le> m_currentFenceValue t"
    by simp
next
  assume "ends_in (GpuWait this val w) (t, w')"
  with GpuWait_static_ends [of "m_queue this" this val w]
  show "m_currentFenceValue this \<le> m_currentFenceValue t"
    by (auto simp: GpuWait_def ends_in_def)
next
  assume "ends_in (GpuWait_static q this val w) (t, w')"
  with GpuWait_static_ends [of q this val w]
  show "m_currentFenceValue this \<le> m_currentFenceValue t"
    by (auto simp: ends_in_def)
next
  assume "ends_in (CpuWait this val w) (t, w')"
  from CpuWait_state [OF this] show "m_currentFenceValue this \<le> m_currentFenceValue t"
    by simp
next
  assume c: "m_currentFenceValue this \<noteq> UnspecifiedFenceValue"
    and e: "ends_in (FlushGpuQueue this w) (t, w')"
  from FlushGpuQueue_state [OF e]
  have "m_currentFenceValue t = m_currentFenceValue this + 1"
    by simp
  with word_less_Suc [OF c] show "m_currentFenceValue this \<le> m_currentFenceValue t"
    by simp
next
  assume e: "ends_in (Next lf w) (lt, w')"
  show "m_currentFenceValue lf \<le> m_currentFenceValue lt"
  proof (cases "in_bounds lf")
    case True
    from Next_state(1) [OF True e] show ?thesis by simp
  next
    case False
    with e show ?thesis by (simp add: Next_out_of_bounds ends_in_def)
  qed
qed

lemma GpuWait_static_returns:
  "\<not> device_removed w \<Longrightarrow> \<exists>w1. GpuWait_static q this val w = Done (this, w1)"
  by (auto simp: GpuWait_static_def ThrowIfFailed_def queue_Wait_def Let_def log_call_def)

lemma CpuWait_returns_at_once:
  "fence_GetCompletedValue (m_fence this) w = (c, w1) \<Longrightarrow>
     (if v = UnspecifiedFenceValue then m_currentFenceValue this else v) \<le> c \<Longrightarrow>
     CpuWait this v w = Done (this, w1)"
  by (auto simp: CpuWait_def Let_def)

lemma idle_world_completed:
  "fence_GetCompletedValue f idle_world = (0, log_call (ID3D12Fence_GetCompletedValue f) idle_world)"
  by (simp add: fence_GetCompletedValue_def advance_def idle_world_def log_call_def)

theorem counter_never_decreases_witness:
  "(\<exists>t w'. ends_in (Signal a_fence UnspecifiedFenceValue idle_world) (t, w') \<and>
       m_currentFenceValue a_fence \<le> m_currentFenceValue t) \<and>
   (\<exists>t w'. ends_in (Signal a_fence 5 idle_world) (t, w') \<and>
       m_currentFenceValue a_fence \<le> m_currentFenceValue t) \<and>
   (\<exists>t w'. ends_in (GpuWait a_fence 5 idle_world) (t, w') \<and>
       m_currentFenceValue a_fence \<le> m_currentFenceValue t) \<and>
   (\<exists>t w'. ends_in (GpuWait_static 1 a_fence 5 idle_world) (t, w') \<and>
       m_currentFenceValue a_fence \<le> m_currentFenceValue t) \<and>
   (\<exists>t w'. ends_in (CpuWait a_fence 0 idle_world) (t, w') \<and>
       m_currentFenceValue a_fence \<le> m_currentFenceValue t) \<and>
   (\<exists>t w'. ends_in (FlushGpuQueue a_fence eager_world) (t, w') \<and>
       m_currentFenceValue a_fence \<le> m_currentFenceValue t) \<and>
   (\<exists>t w'. ends_in (Next a_linear_fence idle_world) (t, w') \<and>
       m_currentFenceValue a_linear_fence \<le> m_currentFenceValue t)"
proof -
  note T = counter_never_decreases [where this = a_fence and lf = a_linear_fence]
  have c0: "m_currentFenceValue a_fence \<noteq> UnspecifiedFenceValue"
    by (simp add: a_fence_def UnspecifiedFenceValue_def)
  have v5: "(5::u64) \<noteq> UnspecifiedFenceValue" "m_currentFenceValue a_fence < 5"
    by (simp_all add: a_fence_def UnspecifiedFenceValue_def)
  from Signal_unspecified_cases [of a_fence idle_world] obtain t1 w1 where
    e1: "ends_in (Signal a_fence UnspecifiedFenceValue idle_world) (t1, w1)" by blast
  from Signal_explicit_cases [OF v5, of idle_world] obtain t2 w2 where
    e2: "ends_in (Signal a_fence 5 idle_world) (t2, w2)" by blast
  from GpuWait_static_ends [of "m_queue a_fence" a_fence 5 idle_world] obtain w3 where
    e3: "ends_in (GpuWait a_fence 5 idle_world) (a_fence, w3)" by (auto simp: GpuWait_def)
  from GpuWait_static_ends [of 1 a_fence 5 idle_world] obtain w4 where
    e4: "ends_in (GpuWait_static 1 a_fence 5 idle_world) (a_fence, w4)" by blast
  have e5: "ends_in (CpuWait a_fence 0 idle_world)
      (a_fence, log_call (ID3D12Fence_GetCompletedValue (m_fence a_fence)) idle_world)"
    by (rule ends_in_Done, rule CpuWait_returns_at_once [OF idle_world_completed])
       (simp add: UnspecifiedFenceValue_def)
  have "\<exists>t w'. FlushGpuQueue a_fence eager_world = Done (t, w')"
    by (simp add: run_simps a_fence_def eager_world_def idle_world_def)
  then obtain t6 w6 where e6: "ends_in (FlushGpuQueue a_fence eager_world) (t6, w6)"
    by (auto simp: ends_in_def)
  have "\<exists>t w'. Next a_linear_fence idle_world = Done (t, w')"
    by (simp add: run_simps a_linear_fence_def idle_world_def)
  then obtain t7 w7 where e7: "ends_in (Next a_linear_fence idle_world) (t7, w7)"
    by (auto simp: ends_in_def)
  from T [where w = idle_world and t = t1 and w' = w1] c0 e1
  have a1: "m_currentFenceValue a_fence \<le> m_currentFenceValue t1" by blast
  from T [where w = idle_world and t = t2 and w' = w2 and val = 5] v5 e2
  have a2: "m_currentFenceValue a_fence \<le> m_currentFenceValue t2" by blast
  from T [where w = idle_world and t = a_fence and w' = w3 and val = 5] e3
  have a3: "m_currentFenceValue a_fence \<le> m_currentFenceValue a_fence" by blast
  from T [where w = idle_world and t = a_fence and w' = w4 and val = 5 and q = 1] e4
  have a4: "m_currentFenceValue a_fence \<le> m_currentFenceValue a_fence" by blast
  from T [where w = idle_world and t = a_fence and val = 0] e5
  have a5: "m_currentFenceValue a_fence \<le> m_currentFenceValue a_fence" by blast
  from T [where w = eager_world and t = t6 and w' = w6] c0 e6
  have a6: "m_currentFenceValue a_fence \<le> m_currentFenceValue t6" by blast
  from T [where w = idle_world and lt = t7 and w' = w7] e7
  have a7: "m_currentFenceValue a_linear_fence \<le> m_currentFenceValue t7" by blast
  from e1 a1 e2 a2 e3 a3 e4 a4 e5 a5 e6 a6 e7 a7 show ?thesis
    by blast
qed

text \<open>
  The claim as stated fails at the largest counter. Two calls bring a new fence to the
  counter \<open>2^64 - 1\<close>, and the next \<^verbatim>\<open>Signal()\<close> returns with the counter at 0.
\<close>

theorem counter_wraps_to_zero:
  "(case Signal a_fence 0xFFFFFFFFFFFFFFFE idle_world of
      Done (f1, w1) \<Rightarrow>
        (case Signal f1 UnspecifiedFenceValue w1 of
           Done (f2, w2) \<Rightarrow>
             (case Signal f2 UnspecifiedFenceValue w2 of
                Done (f3, w3) \<Rightarrow>
                  m_currentFenceValue f2 = 0xFFFFFFFFFFFFFFFF \<and>
                  m_currentFenceValue f3 = 0 \<and>
                  m_currentFenceValue f3 < m_currentFenceValue f2
              | Failed e s \<Rightarrow> False
              | Hang \<Rightarrow> False)
         | Failed e s \<Rightarrow> False
         | Hang \<Rightarrow> False)
    | Failed e s \<Rightarrow> False
    | Hang \<Rightarrow> False)"
  by (simp add: run_simps a_fence_def idle_world_def)

text \<open>
  C5 (as amended). \<^verbatim>\<open>CpuWait(v)\<close> reads the completed value once. If it is at least \<open>v\<close>,
  the call returns at once: the read is its only native call and no event is registered.
  Otherwise, for \<open>v\<close> other than the reserved value \<open>2^64 - 1\<close>, it registers the event of
  the fence for \<open>v\<close> and waits on it with \<^verbatim>\<open>INFINITE\<close>: it returns only in a world where
  the fence object holds at least \<open>v\<close>, and does not return when the event never fires.
\<close>

theorem CpuWait_behaviour:
  assumes "fence_GetCompletedValue (m_fence this) w = (c, w1)"
  shows
    "(v \<le> c \<longrightarrow>
        CpuWait this v w = Done (this, w1) \<and>
        calls w1 = calls w @ [ID3D12Fence_GetCompletedValue (m_fence this)] \<and>
        registered w1 = registered w) \<and>
     (v \<noteq> UnspecifiedFenceValue \<longrightarrow> c < v \<longrightarrow>
        (\<exists>hr w2.
           fence_SetEventOnCompletion (m_fence this) v (m_fenceEvent this) w1 = (hr, w2) \<and>
           calls w2 = calls w @ [ID3D12Fence_GetCompletedValue (m_fence this),
             ID3D12Fence_SetEventOnCompletion (m_fence this) v (m_fenceEvent this)] \<and>
           (device_removed w \<longrightarrow> CpuWait this v w = Failed (HrException hr) (this, w2)) \<and>
           (\<not> device_removed w \<longrightarrow>
              registered w2 = (registered w)(m_fenceEvent this := Some (m_fence this, v)) \<and>
              CpuWait this v w =
                (case WaitForSingleObjectEx (m_fenceEvent this) w2 of
                   None \<Rightarrow> Hang
                 | Some w3 \<Rightarrow> Done (this, w3)) \<and>
              (\<forall>t w3. CpuWait this v w = Done (t, w3) \<longrightarrow>
                 v \<le> completed w3 (m_fence this) \<and>
                 calls w3 = calls w2 @
                   [Win32_WaitForSingleObjectEx (m_fenceEvent this) INFINITE False]))))"
proof (intro conjI impI)
  note g = GetCompletedValue_result [OF assms]
  {
    assume vc: "v \<le> c"
    have "(if v = UnspecifiedFenceValue then m_currentFenceValue this else v) \<le> c"
    proof (cases "v = UnspecifiedFenceValue")
      case True
      with vc have "UnspecifiedFenceValue \<le> c" by simp
      with Unspecified_top [of "m_currentFenceValue this"]
      have "m_currentFenceValue this \<le> c" by (rule order_trans)
      with True show ?thesis by simp
    next
      case False
      with vc show ?thesis by simp
    qed
    from CpuWait_returns_at_once [OF assms this]
    show "CpuWait this v w = Done (this, w1)" .
    from g show "calls w1 = calls w @ [ID3D12Fence_GetCompletedValue (m_fence this)]"
      and "registered w1 = registered w" by simp_all
  }
  assume v: "v \<noteq> UnspecifiedFenceValue" and cv: "c < v"
  obtain hr w2 where s:
    "fence_SetEventOnCompletion (m_fence this) v (m_fenceEvent this) w1 = (hr, w2)"
    by (cases "fence_SetEventOnCompletion (m_fence this) v (m_fenceEvent this) w1")
  note r = SetEventOnCompletion_result [OF s]
  from v cv assms s have cw: "CpuWait this v w =
      and_then (ThrowIfFailed hr (this, w2)) (\<lambda>(this, w2).
         case WaitForSingleObjectEx (m_fenceEvent this) w2 of
           None \<Rightarrow> Hang | Some w3 \<Rightarrow> Done (this, w3))"
    by (simp add: CpuWait_def)
  have "calls w2 = calls w @ [ID3D12Fence_GetCompletedValue (m_fence this),
             ID3D12Fence_SetEventOnCompletion (m_fence this) v (m_fenceEvent this)] \<and>
           (device_removed w \<longrightarrow> CpuWait this v w = Failed (HrException hr) (this, w2)) \<and>
           (\<not> device_removed w \<longrightarrow>
              registered w2 = (registered w)(m_fenceEvent this := Some (m_fence this, v)) \<and>
              CpuWait this v w =
                (case WaitForSingleObjectEx (m_fenceEvent this) w2 of
                   None \<Rightarrow> Hang
                 | Some w3 \<Rightarrow> Done (this, w3)) \<and>
              (\<forall>t w3. CpuWait this v w = Done (t, w3) \<longrightarrow>
                 v \<le> completed w3 (m_fence this) \<and>
                 calls w3 = calls w2 @
                   [Win32_WaitForSingleObjectEx (m_fenceEvent this) INFINITE False]))"
  proof (intro conjI impI allI)
    from g r show "calls w2 = calls w @ [ID3D12Fence_GetCompletedValue (m_fence this),
             ID3D12Fence_SetEventOnCompletion (m_fence this) v (m_fenceEvent this)]"
      by simp
  next
    assume "device_removed w"
    with g r cw show "CpuWait this v w = Failed (HrException hr) (this, w2)"
      by (simp add: ThrowIfFailed_def)
  next
    assume d: "\<not> device_removed w"
    with g r show "registered w2 = (registered w)(m_fenceEvent this := Some (m_fence this, v))"
      by simp
    from d g r cw show k: "CpuWait this v w =
                (case WaitForSingleObjectEx (m_fenceEvent this) w2 of
                   None \<Rightarrow> Hang
                 | Some w3 \<Rightarrow> Done (this, w3))"
      by (simp add: ThrowIfFailed_def)
    fix t w3
    assume "CpuWait this v w = Done (t, w3)"
    with k have x: "WaitForSingleObjectEx (m_fenceEvent this) w2 = Some w3"
      by (simp split: option.splits)
    from WaitForSingleObjectEx_result [OF x] d g r
    show "v \<le> completed w3 (m_fence this)"
      and "calls w3 = calls w2 @
                   [Win32_WaitForSingleObjectEx (m_fenceEvent this) INFINITE False]"
      by auto
  qed
  with s show "\<exists>hr w2.
           fence_SetEventOnCompletion (m_fence this) v (m_fenceEvent this) w1 = (hr, w2) \<and>
           calls w2 = calls w @ [ID3D12Fence_GetCompletedValue (m_fence this),
             ID3D12Fence_SetEventOnCompletion (m_fence this) v (m_fenceEvent this)] \<and>
           (device_removed w \<longrightarrow> CpuWait this v w = Failed (HrException hr) (this, w2)) \<and>
           (\<not> device_removed w \<longrightarrow>
              registered w2 = (registered w)(m_fenceEvent this := Some (m_fence this, v)) \<and>
              CpuWait this v w =
                (case WaitForSingleObjectEx (m_fenceEvent this) w2 of
                   None \<Rightarrow> Hang
                 | Some w3 \<Rightarrow> Done (this, w3)) \<and>
              (\<forall>t w3. CpuWait this v w = Done (t, w3) \<longrightarrow>
                 v \<le> completed w3 (m_fence this) \<and>
                 calls w3 = calls w2 @
                   [Win32_WaitForSingleObjectEx (m_fenceEvent this) INFINITE False]))"
    by blast
qed

lemmas native_simps =
  fence_GetCompletedValue_def fence_SetEventOnCompletion_def WaitForSingleObjectEx_def
  queue_Signal_def queue_Wait_def advance_def log_call_def gpu_step_def Let_def

theorem CpuWait_behaviour_witness:
  "CpuWait a_fence 0 idle_world =
     Done (a_fence, log_call (ID3D12Fence_GetCompletedValue 0) idle_world) \<and>
   (\<exists>w3. CpuWait a_fence 1 busy_world = Done (a_fence, w3) \<and>
      1 \<le> completed w3 0 \<and>
      calls w3 = [ID3D12Fence_GetCompletedValue 0, ID3D12Fence_SetEventOnCompletion 0 1 1,
                  Win32_WaitForSingleObjectEx 1 INFINITE False]) \<and>
   CpuWait a_fence 1 idle_world = Hang \<and>
   (\<exists>w2. CpuWait a_fence 1 (idle_world\<lparr>device_removed := True\<rparr>) =
      Failed (HrException DXGI_ERROR_DEVICE_REMOVED) (a_fence, w2))"
proof (intro conjI)
  have f: "m_fence a_fence = 0" "m_fenceEvent a_fence = 1"
    by (simp_all add: a_fence_def)
  have u: "(1::u64) \<noteq> UnspecifiedFenceValue"
    by (simp add: UnspecifiedFenceValue_def)
  have g0: "fence_GetCompletedValue (m_fence a_fence) idle_world =
      (0, log_call (ID3D12Fence_GetCompletedValue 0) idle_world)"
    by (simp add: f idle_world_completed)
  from CpuWait_behaviour [OF g0, of 0]
  show "CpuWait a_fence 0 idle_world =
     Done (a_fence, log_call (ID3D12Fence_GetCompletedValue 0) idle_world)"
    by simp
  obtain w1 where g1: "fence_GetCompletedValue (m_fence a_fence) busy_world = (0, w1)"
    by (simp add: native_simps f busy_world_def idle_world_def)
  have nd: "\<not> device_removed busy_world" "calls busy_world = []"
    by (simp_all add: busy_world_def idle_world_def)
  have "\<exists>w3. CpuWait a_fence 1 busy_world = Done (a_fence, w3)"
    by (simp add: run_simps a_fence_def busy_world_def idle_world_def)
  then obtain w3 where d: "CpuWait a_fence 1 busy_world = Done (a_fence, w3)" ..
  from CpuWait_behaviour [OF g1, of 1] u nd d
  have "1 \<le> completed w3 0 \<and>
      calls w3 = [ID3D12Fence_GetCompletedValue 0, ID3D12Fence_SetEventOnCompletion 0 1 1,
                  Win32_WaitForSingleObjectEx 1 INFINITE False]"
    by (auto simp: f)
  with d show "\<exists>w3. CpuWait a_fence 1 busy_world = Done (a_fence, w3) \<and>
      1 \<le> completed w3 0 \<and>
      calls w3 = [ID3D12Fence_GetCompletedValue 0, ID3D12Fence_SetEventOnCompletion 0 1 1,
                  Win32_WaitForSingleObjectEx 1 INFINITE False]"
    by blast
  have ni: "\<not> device_removed idle_world"
    by (simp add: idle_world_def)
  from CpuWait_behaviour [OF g0, of 1] u ni obtain hr w2 where
    s: "fence_SetEventOnCompletion (m_fence a_fence) 1 (m_fenceEvent a_fence)
          (log_call (ID3D12Fence_GetCompletedValue 0) idle_world) = (hr, w2)"
    and k: "CpuWait a_fence 1 idle_world =
       (case WaitForSingleObjectEx (m_fenceEvent a_fence) w2 of
          None \<Rightarrow> Hang | Some w3 \<Rightarrow> Done (a_fence, w3))"
    by auto
  from s have "WaitForSingleObjectEx (m_fenceEvent a_fence) w2 = None"
    by (auto simp: native_simps f idle_world_def)
  with k show "CpuWait a_fence 1 idle_world = Hang"
    by simp
  let ?w = "idle_world\<lparr>device_removed := True\<rparr>"
  have gr: "fence_GetCompletedValue (m_fence a_fence) ?w =
      (0, log_call (ID3D12Fence_GetCompletedValue 0) ?w)"
    by (simp add: native_simps f idle_world_def)
  from CpuWait_behaviour [OF gr, of 1] u
  show "\<exists>w2. CpuWait a_fence 1 ?w =
      Failed (HrException DXGI_ERROR_DEVICE_REMOVED) (a_fence, w2)"
    by (auto simp: native_simps)
qed

text \<open>
  The claim as stated fails for \<open>v = 2^64 - 1\<close>: the fence object holds 0, which is less,
  and \<^verbatim>\<open>CpuWait(0xFFFFFFFFFFFFFFFF)\<close> on a fence whose counter is 0 returns at once; it
  registers no event and does not wait.
\<close>

theorem CpuWait_reserved_value_returns:
  "completed idle_world (m_fence a_fence) < 0xFFFFFFFFFFFFFFFF \<and>
   CpuWait a_fence 0xFFFFFFFFFFFFFFFF idle_world =
     Done (a_fence, idle_world\<lparr>calls := [ID3D12Fence_GetCompletedValue 0]\<rparr>)"
  by (simp add: run_simps a_fence_def idle_world_def)


subsection \<open>FlushGpuQueue\<close>

lemma signal_values_append [simp]:
  "signal_values f (xs @ ys) = signal_values f xs @ signal_values f ys"
  by (induction f xs rule: signal_values.induct) auto














subsection \<open>Which errors a call can end with\<close>

lemma CpuWait_error: "CpuWait this v w = Failed e s \<Longrightarrow> \<exists>hr. e = HrException hr"
  by (auto simp: CpuWait_def ThrowIfFailed_def Let_def
      split: prod.splits if_splits option.splits)

lemma Signal_error:
  "Signal this v w = Failed e s \<Longrightarrow> e = AssertionFailed \<or> (\<exists>hr. e = HrException hr)"
  by (auto simp: Signal_def CRT_ASSERT_def ThrowIfFailed_def Let_def split: prod.splits if_splits)

lemma GpuWait_static_error:
  "GpuWait_static q this v w = Failed e s \<Longrightarrow> \<exists>hr. e = HrException hr"
  by (auto simp: GpuWait_static_def ThrowIfFailed_def Let_def split: prod.splits if_splits)

lemma FlushGpuQueue_error:
  assumes "FlushGpuQueue this w = Failed e s"
  shows "\<exists>hr. e = HrException hr"
proof (cases "Signal this UnspecifiedFenceValue w")
  case (Done a)
  with assms show ?thesis
    by (cases a) (auto simp: FlushGpuQueue_def dest: CpuWait_error)
next
  case (Failed e' s')
  with assms have "e' = e" by (simp add: FlushGpuQueue_def)
  with Failed Signal_unspecified_cases [of this w] show ?thesis
    by (auto simp: ends_in_def Signal_def CRT_ASSERT_def ThrowIfFailed_def split: prod.splits if_splits)
next
  case Hang
  with assms show ?thesis by (simp add: FlushGpuQueue_def)
qed

lemma Next_error:
  "in_bounds this \<Longrightarrow> Next this w = Failed e s \<Longrightarrow> \<exists>hr. e = HrException hr"
  by (auto simp: Next_steps dest: CpuWait_error)

lemma exec_error:
  assumes "in_bounds this" and "exec c this w = Failed e s"
  shows "e \<noteq> SubscriptOutOfRange \<and> e \<noteq> DivideByZero"
proof (cases c)
  case (DoSignal v)
  with assms(2) Signal_error [of this v w e s] show ?thesis by auto
next
  case (DoGpuWait v)
  with assms(2) GpuWait_static_error [of "m_queue this" this v w e s] show ?thesis
    by (auto simp: GpuWait_def)
next
  case (DoGpuWaitOn q v)
  with assms(2) GpuWait_static_error [of q this v w e s] show ?thesis by auto
next
  case DoFlushGpuQueue
  with assms(2) FlushGpuQueue_error [of this w e s] show ?thesis by auto
next
  case DoNext
  with assms Next_error [of this w e s] show ?thesis by auto
qed

lemma run_in_bounds:
  assumes "in_bounds this"
  shows "(\<forall>e s. run cs this w recs = Failed e s \<longrightarrow>
            e \<noteq> SubscriptOutOfRange \<and> e \<noteq> DivideByZero) \<and>
         (\<forall>t w' recs'. run cs this w recs = Done ((t, w'), recs') \<longrightarrow>
            in_bounds t \<and> length (m_signalHistory t) = length (m_signalHistory this))"
  using assms
proof (induction cs arbitrary: this w recs)
  case Nil
  then show ?case by simp
next
  case (Cons c cs)
  show ?case
  proof (cases "exec c this w")
    case (Done a)
    obtain t1 w1 where a: "a = (t1, w1)" by (cases a)
    from Done a have e: "ends_in (exec c this w) (t1, w1)" by (simp add: ends_in_def)
    note st = exec_state(2,3) [OF Cons.prems e]
    from Cons.IH [OF st(1)] Done a st(2) show ?thesis by simp
  next
    case (Failed e s)
    with exec_error [OF Cons.prems Failed] show ?thesis by simp
  next
    case Hang
    then show ?thesis by simp
  qed
qed

text \<open>
  C10. A \<^verbatim>\<open>LinearFence\<close> constructed with a capacity of at least 1 has its cursor inside
  the ring buffer. From such a state \<^verbatim>\<open>Next\<close> makes no access outside the buffer and no
  division by zero, and leaves the cursor inside the buffer, whose length it keeps; so
  does every run of calls. With capacity 0 the buffer is empty, so the modulus of \<^verbatim>\<open>Next\<close>
  is 0, and \<^verbatim>\<open>Next\<close> fails at its first statement, the write to slot 0.
\<close>

theorem Next_stays_in_bounds:
  "(count \<noteq> 0 \<longrightarrow> LinearFence_ctor pQueue count w = Done (lf, w0) \<longrightarrow>
      in_bounds lf \<and> length (m_signalHistory lf) = unat count) \<and>
   (in_bounds this \<longrightarrow>
      (\<forall>s. Next this w1 \<noteq> Failed SubscriptOutOfRange s \<and>
           Next this w1 \<noteq> Failed DivideByZero s) \<and>
      (\<forall>t w'. ends_in (Next this w1) (t, w') \<longrightarrow>
         unat (m_signalIndex t) < length (m_signalHistory t) \<and>
         length (m_signalHistory t) = length (m_signalHistory this))) \<and>
   (count \<noteq> 0 \<longrightarrow> LinearFence_ctor pQueue count w = Done (lf, w0) \<longrightarrow>
      (\<forall>cs s. run cs lf w0 [] \<noteq> Failed SubscriptOutOfRange s \<and>
              run cs lf w0 [] \<noteq> Failed DivideByZero s) \<and>
      (\<forall>cs t w' recs. run cs lf w0 [] = Done ((t, w'), recs) \<longrightarrow>
         unat (m_signalIndex t) < unat count \<and> length (m_signalHistory t) = unat count)) \<and>
   (LinearFence_ctor pQueue 0 w = Done (lf, w0) \<longrightarrow>
      length (m_signalHistory lf) = 0 \<and> \<not> in_bounds lf \<and>
      (\<forall>w1. Next lf w1 = Failed SubscriptOutOfRange (lf, w1)))"
proof (intro conjI impI allI)
  assume c: "count \<noteq> 0" and d: "LinearFence_ctor pQueue count w = Done (lf, w0)"
  from LinearFence_ctor_throttled(2) [OF d c] show ib: "in_bounds lf" .
  from LinearFence_ctor_result [OF d] show len: "length (m_signalHistory lf) = unat count"
    by simp
  fix cs
  note r = run_in_bounds [OF ib, of cs w0 "[]"]
  from r show "run cs lf w0 [] \<noteq> Failed SubscriptOutOfRange s" for s by blast
  from r show "run cs lf w0 [] \<noteq> Failed DivideByZero s" for s by blast
  fix t w' recs
  assume "run cs lf w0 [] = Done ((t, w'), recs)"
  with r len have "in_bounds t" and l: "length (m_signalHistory t) = unat count"
    by auto
  then show "unat (m_signalIndex t) < unat count"
    by (simp add: in_bounds_def)
  from l show "length (m_signalHistory t) = unat count" .
next
  assume ib: "in_bounds this"
  show "Next this w1 \<noteq> Failed SubscriptOutOfRange s" for s
    using Next_error [OF ib, of w1 SubscriptOutOfRange s] by auto
  show "Next this w1 \<noteq> Failed DivideByZero s" for s
    using Next_error [OF ib, of w1 DivideByZero s] by auto
  fix t w'
  assume e: "ends_in (Next this w1) (t, w')"
  from Next_state(3) [OF ib e] show "unat (m_signalIndex t) < length (m_signalHistory t)"
    by (simp add: in_bounds_def)
  from Next_state(1) [OF ib e] show "length (m_signalHistory t) = length (m_signalHistory this)"
    by simp
next
  assume d: "LinearFence_ctor pQueue 0 w = Done (lf, w0)"
  from LinearFence_ctor_result [OF d] show z: "length (m_signalHistory lf) = 0"
    by simp
  then show n: "\<not> in_bounds lf" by (simp add: in_bounds_def)
  from n show "Next lf w1 = Failed SubscriptOutOfRange (lf, w1)" for w1
    by (rule Next_out_of_bounds)
qed

lemma LinearFence_ctor_returns:
  assumes "pQueue \<in> set (queues w)" and "\<not> device_removed w" and "os_handles w = h # hs"
    and "h \<noteq> NULL"
  shows "\<exists>w0. LinearFence_ctor pQueue count w =
            Done (\<lparr>m_fence = next_fence w, m_queue = pQueue, m_currentFenceValue = 0,
                    m_fenceEvent = h, m_signalHistory = replicate (unat count) 0,
                    m_signalIndex = 0\<rparr>, w0)
          \<and> \<not> device_removed w0"
proof -
  from Fence_ctor_returns [OF assms] obtain w0 where
    "Fence_ctor pQueue w =
            Done (\<lparr>m_fence = next_fence w, m_queue = pQueue, m_currentFenceValue = 0,
                    m_fenceEvent = h\<rparr>, w0)" and "\<not> device_removed w0"
    by blast
  then show ?thesis by (simp add: LinearFence_ctor_def)
qed

lemma constructed:
  "Fence_ctor 0 idle_world = Done (a_fence, constructed_world)"
  "LinearFence_ctor 0 2 idle_world = Done (a_linear_fence, constructed_world)"
proof -
  have r: "replicate 2 (0::u64) = [0, 0]"
    by code_simp
  show "Fence_ctor 0 idle_world = Done (a_fence, constructed_world)"
    by (simp add: Fence_ctor_def idle_world_def a_fence_def
        constructed_world_def queue_QueryInterface_def queue_GetDevice_def
        device_CreateFence_def CreateEvent_def ThrowIfFailed_def FAILED_def S_OK_def NULL_def
        advance_def log_call_def Let_def)
  then show "LinearFence_ctor 0 2 idle_world = Done (a_linear_fence, constructed_world)"
    by (simp add: LinearFence_ctor_def a_fence_def a_linear_fence_def r)
qed

theorem Next_stays_in_bounds_witness:
  "LinearFence_ctor 0 2 idle_world = Done (a_linear_fence, constructed_world) \<and>
   in_bounds a_linear_fence \<and> length (m_signalHistory a_linear_fence) = 2 \<and>
   (\<exists>t w' recs. run [DoNext, DoSignal 3, DoNext] a_linear_fence constructed_world [] =
         Done ((t, w'), recs) \<and>
      unat (m_signalIndex t) < 2 \<and> length (m_signalHistory t) = 2) \<and>
   (\<exists>t w'. ends_in (Next a_linear_fence idle_world) (t, w') \<and>
      unat (m_signalIndex t) < length (m_signalHistory t) \<and>
      length (m_signalHistory t) = length (m_signalHistory a_linear_fence)) \<and>
   (\<exists>lf w0. LinearFence_ctor 0 0 idle_world = Done (lf, w0) \<and>
      length (m_signalHistory lf) = 0 \<and>
      Next lf w0 = Failed SubscriptOutOfRange (lf, w0))"
proof (intro conjI)
  note c = constructed(2)
  show "LinearFence_ctor 0 2 idle_world = Done (a_linear_fence, constructed_world)"
    by (rule c)
  note T = Next_stays_in_bounds [where count = 2 and pQueue = 0 and w = idle_world
      and lf = a_linear_fence and ?w0.0 = constructed_world]
  have two: "(2::uint) \<noteq> 0" "unat (2::uint) = 2" by simp_all
  from T [THEN conjunct1, rule_format, OF two(1) c] two(2)
  show ib: "in_bounds a_linear_fence"
    and len: "length (m_signalHistory a_linear_fence) = 2"
    by simp_all
  have "(case run [DoNext, DoSignal 3, DoNext] a_linear_fence constructed_world [] of
           Done s \<Rightarrow> True | Failed e s \<Rightarrow> False | Hang \<Rightarrow> False)"
    by code_simp
  then obtain t w' recs where
    r: "run [DoNext, DoSignal 3, DoNext] a_linear_fence constructed_world [] =
          Done ((t, w'), recs)"
    by (cases "run [DoNext, DoSignal 3, DoNext] a_linear_fence constructed_world []") auto
  note T3 = T [THEN conjunct2, THEN conjunct2, THEN conjunct1, rule_format, OF two(1) c]
  from T3 [THEN conjunct2, rule_format, OF r] two(2)
  have "unat (m_signalIndex t) < 2 \<and> length (m_signalHistory t) = 2"
    by simp
  with r show "\<exists>t w' recs. run [DoNext, DoSignal 3, DoNext] a_linear_fence constructed_world [] =
         Done ((t, w'), recs) \<and>
      unat (m_signalIndex t) < 2 \<and> length (m_signalHistory t) = 2"
    by blast
  have "(case Next a_linear_fence idle_world of
           Done s \<Rightarrow> True | Failed e s \<Rightarrow> False | Hang \<Rightarrow> False)"
    by code_simp
  then obtain t7 w7 where e7: "ends_in (Next a_linear_fence idle_world) (t7, w7)"
    by (cases "Next a_linear_fence idle_world") (auto simp: ends_in_def)
  note T2 = Next_stays_in_bounds [where this = a_linear_fence and ?w1.0 = idle_world,
      THEN conjunct2, THEN conjunct1, rule_format, OF ib]
  from T2 [THEN conjunct2, rule_format, OF e7] e7
  show "\<exists>t w'. ends_in (Next a_linear_fence idle_world) (t, w') \<and>
      unat (m_signalIndex t) < length (m_signalHistory t) \<and>
      length (m_signalHistory t) = length (m_signalHistory a_linear_fence)"
    by blast
  from LinearFence_ctor_returns [OF idle_world_facts(1-4), of 0] obtain lf z0 where
    z: "LinearFence_ctor 0 0 idle_world = Done (lf, z0)" by blast
  from Next_stays_in_bounds [where pQueue = 0 and w = idle_world and lf = lf and ?w0.0 = z0,
      THEN conjunct2, THEN conjunct2, THEN conjunct2, rule_format, OF z] z
  show "\<exists>lf w0. LinearFence_ctor 0 0 idle_world = Done (lf, w0) \<and>
      length (m_signalHistory lf) = 0 \<and>
      Next lf w0 = Failed SubscriptOutOfRange (lf, w0)"
    by blast
qed

lemma throttled_cursor_slot:
  assumes "throttled t w recs" and "length (m_signalHistory t) \<le> length recs"
  shows "m_signalHistory t ! unat (m_signalIndex t) = recs ! (length (m_signalHistory t) - 1)"
proof -
  let ?n = "length (m_signalHistory t)"
  let ?k = "length recs"
  from assms(1) have n: "0 < ?n" and cur: "unat (m_signalIndex t) = ?k mod ?n"
    and ring: "\<And>m. m < ?k \<Longrightarrow> ?k \<le> m + ?n \<Longrightarrow>
                 m_signalHistory t ! (m mod ?n) = recs ! (?k - 1 - m)"
    by (simp_all add: throttled_def Let_def)
  from assms(2) n have m: "?k - ?n < ?k" "?k \<le> (?k - ?n) + ?n" by linarith+
  from assms(2) have "(?k - ?n) mod ?n = ?k mod ?n" by (simp add: le_mod_geq)
  with ring [OF m] cur have "m_signalHistory t ! unat (m_signalIndex t)
      = recs ! (?k - 1 - (?k - ?n))" by simp
  also from assms(2) n have "?k - 1 - (?k - ?n) = ?n - 1" by linarith
  finally show ?thesis .
qed

lemma Next_returns_at_once:
  assumes ib: "in_bounds this"
    and g: "fence_GetCompletedValue (m_fence this) w = (c, w1)"
    and x: "(m_signalHistory this)[unat (m_signalIndex this) := m_currentFenceValue this]
          ! (unat (m_signalIndex this + 1) mod length (m_signalHistory this)) \<le> c"
  shows "Next this w =
     Done (this\<lparr>m_signalHistory :=
                (m_signalHistory this)[unat (m_signalIndex this) := m_currentFenceValue this],
             m_signalIndex :=
                word_of_nat (unat (m_signalIndex this + 1) mod length (m_signalHistory this))\<rparr>,
           w1)"
proof -
  let ?t = "this\<lparr>m_signalHistory :=
                (m_signalHistory this)[unat (m_signalIndex this) := m_currentFenceValue this],
             m_signalIndex :=
                word_of_nat (unat (m_signalIndex this + 1) mod length (m_signalHistory this))\<rparr>"
  let ?x = "(m_signalHistory this)[unat (m_signalIndex this) := m_currentFenceValue this]
          ! (unat (m_signalIndex this + 1) mod length (m_signalHistory this))"
  from g have g': "fence_GetCompletedValue (m_fence ?t) w = (c, w1)" by simp
  have "(if ?x = UnspecifiedFenceValue then m_currentFenceValue ?t else ?x) \<le> c"
  proof (cases "?x = UnspecifiedFenceValue")
    case True
    with x have "UnspecifiedFenceValue \<le> c" by simp
    with Unspecified_top [of "m_currentFenceValue ?t"]
    have "m_currentFenceValue ?t \<le> c" by (rule order_trans)
    with True show ?thesis by simp
  next
    case False
    with x show ?thesis by simp
  qed
  from CpuWait_returns_at_once [OF g' this]
  show ?thesis by (simp add: Next_steps [OF ib])
qed

text \<open>A ring buffer of zeros under a counter of 0: nothing was signalled yet.\<close>

lemma Next_on_zeros:
  assumes ib: "in_bounds this" and z: "set (m_signalHistory this) \<subseteq> {0}"
    and c: "m_currentFenceValue this = 0"
  shows "\<exists>t w'. Next this w = Done (t, w') \<and> in_bounds t \<and>
           set (m_signalHistory t) \<subseteq> {0} \<and> m_currentFenceValue t = 0 \<and>
           m_fence t = m_fence this \<and>
           calls w' = calls w @ [ID3D12Fence_GetCompletedValue (m_fence this)]"
proof -
  let ?h = "(m_signalHistory this)[unat (m_signalIndex this) := m_currentFenceValue this]"
  let ?j = "unat (m_signalIndex this + 1) mod length (m_signalHistory this)"
  let ?t = "this\<lparr>m_signalHistory := ?h, m_signalIndex := word_of_nat ?j\<rparr>"
  obtain c1 w1 where g: "fence_GetCompletedValue (m_fence this) w = (c1, w1)"
    by (cases "fence_GetCompletedValue (m_fence this) w")
  from ib have n: "0 < length (m_signalHistory this)" by (auto simp: in_bounds_def)
  from z c set_update_subset_insert [of "m_signalHistory this" "unat (m_signalIndex this)" 0]
  have zh: "set ?h \<subseteq> {0}"
    by auto
  from n have "?j < length ?h" by simp
  then have "?h ! ?j \<in> set ?h" by (rule nth_mem)
  with zh have "?h ! ?j = 0" by auto
  then have "?h ! ?j \<le> c1" by simp
  from Next_returns_at_once [OF ib g this] have d: "Next this w = Done (?t, w1)" .
  from Next_state(3) [OF ib ends_in_Done [OF d]] have "in_bounds ?t" .
  with d zh c GetCompletedValue_result [OF g] show ?thesis by simp
qed

text \<open>
  C6 (as amended). From a state with the cursor inside a ring buffer of \<open>N\<close> slots (\<open>N\<close>
  fits a \<^verbatim>\<open>UINT\<close>), \<^verbatim>\<open>Next\<close> is: store the counter in the slot at the cursor, move the
  cursor to \<open>(cursor + 1) mod N\<close>, call \<^verbatim>\<open>CpuWait\<close> on the slot at the new cursor. Once \<open>N\<close>
  calls were made, that slot holds the counter stored \<open>N - 1\<close> calls before the latest;
  it is the slot that the next call writes. If the fence object holds at least the value
  of that slot, \<^verbatim>\<open>Next\<close> returns after reading it. On a new \<^verbatim>\<open>LinearFence\<close> of capacity 2
  four calls of \<^verbatim>\<open>Next\<close> in a row return, and their only native calls are the four reads
  of the completed value: they register no event and do not wait, whatever the GPU does.
\<close>

theorem Next_steps_in_order:
  "(in_bounds this \<longrightarrow> length (m_signalHistory this) < 2 ^ 32 \<longrightarrow>
      Next this w =
        CpuWait
          (this\<lparr>m_signalHistory :=
                   (m_signalHistory this)[unat (m_signalIndex this) := m_currentFenceValue this],
                m_signalIndex :=
                   word_of_nat (Suc (unat (m_signalIndex this))
                                  mod length (m_signalHistory this))\<rparr>)
          ((m_signalHistory this)[unat (m_signalIndex this) := m_currentFenceValue this]
             ! (Suc (unat (m_signalIndex this)) mod length (m_signalHistory this)))
          w \<and>
      unat (word_of_nat (Suc (unat (m_signalIndex this))
                           mod length (m_signalHistory this)) :: uint) =
        Suc (unat (m_signalIndex this)) mod length (m_signalHistory this)) \<and>
   (count \<noteq> 0 \<longrightarrow> LinearFence_ctor pQueue count w = Done (lf, w0) \<longrightarrow>
      run cs lf w0 [] = Done ((t, w'), recs) \<longrightarrow> unat count \<le> length recs \<longrightarrow>
      m_signalHistory t ! unat (m_signalIndex t) = recs ! (unat count - 1)) \<and>
   (in_bounds this \<longrightarrow> length (m_signalHistory this) < 2 ^ 32 \<longrightarrow>
      fence_GetCompletedValue (m_fence this) w = (c, w1) \<longrightarrow>
      (m_signalHistory this)[unat (m_signalIndex this) := m_currentFenceValue this]
          ! (Suc (unat (m_signalIndex this)) mod length (m_signalHistory this)) \<le> c \<longrightarrow>
      (\<exists>t. Next this w = Done (t, w1)) \<and>
      calls w1 = calls w @ [ID3D12Fence_GetCompletedValue (m_fence this)]) \<and>
   (LinearFence_ctor pQueue 2 w = Done (lf, w0) \<longrightarrow>
      (\<exists>t w4 recs. run [DoNext, DoNext, DoNext, DoNext] lf w0 [] = Done ((t, w4), recs) \<and>
         calls w4 = calls w0 @ replicate 4 (ID3D12Fence_GetCompletedValue (m_fence lf))))"
proof (intro conjI impI)
  assume ib: "in_bounds this" and n: "length (m_signalHistory this) < 2 ^ 32"
  from ib have lt: "unat (m_signalIndex this) < length (m_signalHistory this)"
    by (simp add: in_bounds_def)
  with n have "unat (m_signalIndex this) + 1 < 2 ^ 32" by simp
  then have s: "unat (m_signalIndex this + 1) = Suc (unat (m_signalIndex this))"
    by (simp add: unat_word_ariths)
  from Next_steps [OF ib, of w] s
  show "Next this w =
        CpuWait
          (this\<lparr>m_signalHistory :=
                   (m_signalHistory this)[unat (m_signalIndex this) := m_currentFenceValue this],
                m_signalIndex :=
                   word_of_nat (Suc (unat (m_signalIndex this))
                                  mod length (m_signalHistory this))\<rparr>)
          ((m_signalHistory this)[unat (m_signalIndex this) := m_currentFenceValue this]
             ! (Suc (unat (m_signalIndex this)) mod length (m_signalHistory this)))
          w"
    by simp
  from Next_index [OF lt n] s
  show "unat (word_of_nat (Suc (unat (m_signalIndex this))
                           mod length (m_signalHistory this)) :: uint) =
        Suc (unat (m_signalIndex this)) mod length (m_signalHistory this)"
    by simp
  {
    assume g: "fence_GetCompletedValue (m_fence this) w = (c, w1)"
      and x: "(m_signalHistory this)[unat (m_signalIndex this) := m_currentFenceValue this]
          ! (Suc (unat (m_signalIndex this)) mod length (m_signalHistory this)) \<le> c"
    from x s have "(m_signalHistory this)[unat (m_signalIndex this) := m_currentFenceValue this]
          ! (unat (m_signalIndex this + 1) mod length (m_signalHistory this)) \<le> c"
      by simp
    from Next_returns_at_once [OF ib g this] show "\<exists>t. Next this w = Done (t, w1)"
      by blast
    from GetCompletedValue_result [OF g]
    show "calls w1 = calls w @ [ID3D12Fence_GetCompletedValue (m_fence this)]"
      by simp
  }
next
  assume c: "count \<noteq> 0" and d: "LinearFence_ctor pQueue count w = Done (lf, w0)"
    and r: "run cs lf w0 [] = Done ((t, w'), recs)" and k: "unat count \<le> length recs"
  from LinearFence_ctor_throttled [OF d c] have ib: "in_bounds lf" and th: "throttled lf w0 []"
    by simp_all
  from run_in_bounds [OF ib, of cs w0 "[]"] r LinearFence_ctor_result [OF d]
  have len: "length (m_signalHistory t) = unat count" by simp
  from throttled_run [OF th r] have "throttled t w' recs" .
  from throttled_cursor_slot [OF this] k len
  show "m_signalHistory t ! unat (m_signalIndex t) = recs ! (unat count - 1)"
    by simp
next
  assume d: "LinearFence_ctor pQueue 2 w = Done (lf, w0)"
  have two: "(2::uint) \<noteq> 0" by simp
  from LinearFence_ctor_throttled(2) [OF d two] have ib: "in_bounds lf" .
  from LinearFence_ctor_result [OF d] have z: "set (m_signalHistory lf) \<subseteq> {0}"
    and c: "m_currentFenceValue lf = 0" by auto
  let ?G = "ID3D12Fence_GetCompletedValue (m_fence lf)"
  from Next_on_zeros [OF ib z c, of w0] obtain t1 w1 where
    n1: "Next lf w0 = Done (t1, w1)" and i1: "in_bounds t1"
    and z1: "set (m_signalHistory t1) \<subseteq> {0}" and c1: "m_currentFenceValue t1 = 0"
    and f1: "m_fence t1 = m_fence lf" and l1: "calls w1 = calls w0 @ [?G]"
    by blast
  from Next_on_zeros [OF i1 z1 c1, of w1] f1 obtain t2 w2 where
    n2: "Next t1 w1 = Done (t2, w2)" and i2: "in_bounds t2"
    and z2: "set (m_signalHistory t2) \<subseteq> {0}" and c2: "m_currentFenceValue t2 = 0"
    and f2: "m_fence t2 = m_fence lf" and l2: "calls w2 = calls w1 @ [?G]"
    by auto
  from Next_on_zeros [OF i2 z2 c2, of w2] f2 obtain t3 w3 where
    n3: "Next t2 w2 = Done (t3, w3)" and i3: "in_bounds t3"
    and z3: "set (m_signalHistory t3) \<subseteq> {0}" and c3: "m_currentFenceValue t3 = 0"
    and f3: "m_fence t3 = m_fence lf" and l3: "calls w3 = calls w2 @ [?G]"
    by auto
  from Next_on_zeros [OF i3 z3 c3, of w3] f3 obtain t4 w4 where
    n4: "Next t3 w3 = Done (t4, w4)" and l4: "calls w4 = calls w3 @ [?G]"
    by auto
  from n1 n2 n3 n4 c c1 c2 c3
  have "run [DoNext, DoNext, DoNext, DoNext] lf w0 [] = Done ((t4, w4), [0, 0, 0, 0])"
    by simp
  moreover have "replicate 4 ?G = [?G, ?G, ?G, ?G]"
    by (simp add: eval_nat_numeral)
  with l1 l2 l3 l4 have "calls w4 = calls w0 @ replicate 4 ?G"
    by simp
  ultimately show "\<exists>t w4 recs. run [DoNext, DoNext, DoNext, DoNext] lf w0 [] =
      Done ((t, w4), recs) \<and>
         calls w4 = calls w0 @ replicate 4 (ID3D12Fence_GetCompletedValue (m_fence lf))"
    by blast
qed

theorem Next_steps_in_order_witness:
  "Next a_linear_fence idle_world =
     CpuWait (a_linear_fence\<lparr>m_signalHistory := [0, 0], m_signalIndex := 1\<rparr>) 0 idle_world \<and>
   (\<exists>t w' recs. run [DoNext, DoSignal 5, DoNext] a_linear_fence constructed_world []
        = Done ((t, w'), recs) \<and>
      recs = [5, 0] \<and> m_signalHistory t ! unat (m_signalIndex t) = 0) \<and>
   (\<exists>t. Next a_linear_fence idle_world =
      Done (t, log_call (ID3D12Fence_GetCompletedValue 0) idle_world)) \<and>
   (\<exists>t w4 recs. run [DoNext, DoNext, DoNext, DoNext] a_linear_fence constructed_world [] =
      Done ((t, w4), recs) \<and>
      calls w4 = calls constructed_world @ replicate 4 (ID3D12Fence_GetCompletedValue 0)) \<and>
   (case run [DoSignal UnspecifiedFenceValue, DoNext, DoSignal UnspecifiedFenceValue, DoNext,
              DoSignal UnspecifiedFenceValue, DoNext, DoSignal UnspecifiedFenceValue, DoNext]
           a_linear_fence eager_world [] of
      Done ((t, w), recs) \<Rightarrow>
        recs = [4, 3, 2, 1] \<and>
        filter (\<lambda>c. c \<noteq> ID3D12Fence_GetCompletedValue 0) (calls w) =
          [ID3D12CommandQueue_Signal 0 0 1, ID3D12CommandQueue_Signal 0 0 2,
           ID3D12CommandQueue_Signal 0 0 3, ID3D12CommandQueue_Signal 0 0 4]
    | Failed e s \<Rightarrow> False
    | Hang \<Rightarrow> False)"
proof (intro conjI)
  have two: "(2::uint) \<noteq> 0" "unat (2::uint) = 2" by simp_all
  have f: "m_fence a_linear_fence = 0" "m_signalHistory a_linear_fence = [0, 0]"
    "m_signalIndex a_linear_fence = 0" "m_currentFenceValue a_linear_fence = 0"
    by (simp_all add: a_linear_fence_def)
  have ib: "in_bounds a_linear_fence" and len: "length (m_signalHistory a_linear_fence) < 2 ^ 32"
    by (simp_all add: in_bounds_def f)
  note T = Next_steps_in_order [where this = a_linear_fence and w = idle_world]
  from T [THEN conjunct1, rule_format, OF ib len, THEN conjunct1]
  show "Next a_linear_fence idle_world =
     CpuWait (a_linear_fence\<lparr>m_signalHistory := [0, 0], m_signalIndex := 1\<rparr>) 0 idle_world"
    by (simp add: f)
  have g: "fence_GetCompletedValue (m_fence a_linear_fence) idle_world =
      (0, log_call (ID3D12Fence_GetCompletedValue 0) idle_world)"
    by (simp add: f idle_world_completed)
  from T [THEN conjunct2, THEN conjunct2, THEN conjunct1, rule_format, OF ib len g]
  show "\<exists>t. Next a_linear_fence idle_world =
      Done (t, log_call (ID3D12Fence_GetCompletedValue 0) idle_world)"
    by (simp add: f)
  note U = Next_steps_in_order [where count = 2 and pQueue = 0 and w = idle_world
      and lf = a_linear_fence and ?w0.0 = constructed_world]
  have "(case run [DoNext, DoSignal 5, DoNext] a_linear_fence constructed_world [] of
           Done ((t, w'), recs) \<Rightarrow> recs = [5, 0] | Failed e s \<Rightarrow> False | Hang \<Rightarrow> False)"
    by code_simp
  then obtain t w' where
    r: "run [DoNext, DoSignal 5, DoNext] a_linear_fence constructed_world [] =
          Done ((t, w'), [5, 0])"
    by (cases "run [DoNext, DoSignal 5, DoNext] a_linear_fence constructed_world []")
       auto
  from U [THEN conjunct2, THEN conjunct1, rule_format, OF two(1) constructed(2) r] two(2)
  have "m_signalHistory t ! unat (m_signalIndex t) = 0"
    by simp
  with r show "\<exists>t w' recs.
      run [DoNext, DoSignal 5, DoNext] a_linear_fence constructed_world []
        = Done ((t, w'), recs) \<and>
      recs = [5, 0] \<and> m_signalHistory t ! unat (m_signalIndex t) = 0"
    by blast
  from U [THEN conjunct2, THEN conjunct2, THEN conjunct2, rule_format, OF constructed(2)]
  show "\<exists>t w4 recs. run [DoNext, DoNext, DoNext, DoNext] a_linear_fence constructed_world [] =
      Done ((t, w4), recs) \<and>
      calls w4 = calls constructed_world @ replicate 4 (ID3D12Fence_GetCompletedValue 0)"
    by (simp add: f)
  show "(case run [DoSignal UnspecifiedFenceValue, DoNext, DoSignal UnspecifiedFenceValue, DoNext,
              DoSignal UnspecifiedFenceValue, DoNext, DoSignal UnspecifiedFenceValue, DoNext]
           a_linear_fence eager_world [] of
      Done ((t, w), recs) \<Rightarrow>
        recs = [4, 3, 2, 1] \<and>
        filter (\<lambda>c. c \<noteq> ID3D12Fence_GetCompletedValue 0) (calls w) =
          [ID3D12CommandQueue_Signal 0 0 1, ID3D12CommandQueue_Signal 0 0 2,
           ID3D12CommandQueue_Signal 0 0 3, ID3D12CommandQueue_Signal 0 0 4]
    | Failed e s \<Rightarrow> False
    | Hang \<Rightarrow> False)"
    by code_simp
qed

text \<open>
  The claim as stated puts the awaited value \<open>N\<close> calls back. With capacity 2 and the
  counter signalled to 1, 2 and 3 before the first, second and third call of \<^verbatim>\<open>Next\<close>, the
  second call registers the event for 1 and the third for 2, the counter that the second
  call stored, not for the 1 of two calls earlier; it returns with the fence object at 2.
\<close>

theorem Next_waits_for_previous_call:
  "(case run [DoSignal UnspecifiedFenceValue, DoNext, DoSignal UnspecifiedFenceValue, DoNext,
              DoSignal UnspecifiedFenceValue, DoNext] a_linear_fence slow_world [] of
      Done ((t, w), recs) \<Rightarrow>
        recs = [3, 2, 1] \<and>
        filter registers (calls w) =
          [ID3D12Fence_SetEventOnCompletion 0 1 1, ID3D12Fence_SetEventOnCompletion 0 2 1] \<and>
        m_signalHistory t ! unat (m_signalIndex t) = 2 \<and>
        completed w 0 = 2
    | Failed e s \<Rightarrow> False
    | Hang \<Rightarrow> False)"
  by code_simp

lemma never_hang:
  "Signal this v w \<noteq> Hang" "GpuWait_static q this v w \<noteq> Hang" "GpuWait this v w \<noteq> Hang"
  by (auto simp: Signal_def CRT_ASSERT_def GpuWait_def GpuWait_static_def ThrowIfFailed_def Let_def
      split: prod.splits if_splits)

lemma run_fence:
  "in_bounds this \<Longrightarrow> run cs this w recs = Done ((t, w'), recs') \<Longrightarrow>
     m_fence t = m_fence this \<and> m_queue t = m_queue this"
proof (induction cs arbitrary: this w recs)
  case Nil
  then show ?case by simp
next
  case (Cons c cs)
  from Cons.prems(2) obtain t1 w1 where e: "exec c this w = Done (t1, w1)"
    and r: "run cs t1 w1 (if c = DoNext then m_currentFenceValue this # recs else recs)
              = Done ((t, w'), recs')"
    by (cases "exec c this w") auto
  note st = exec_state(2,3) [OF Cons.prems(1) ends_in_Done [OF e]]
  from Cons.IH [OF st(1) r] st(2) show ?case by simp
qed

text \<open>
  C1 (as amended). Take a \<^verbatim>\<open>LinearFence\<close> constructed with capacity \<open>N \<ge> 1\<close> and any run
  of calls on it that returns. Let \<open>recs\<close> be the counters that the calls of \<^verbatim>\<open>Next\<close> of
  the run stored, the latest first, so that with \<open>k = length recs\<close> calls made \<open>recs ! i\<close>
  is what call \<open>k - i\<close> stored. Then the fence object has reached every \<open>recs ! i\<close> with
  \<open>N \<le> i + 1\<close> that is not the reserved value \<open>2^64 - 1\<close>: what call \<open>k - N\<close> stored
  (\<open>i = N\<close>, for \<open>k > N\<close>), and already what call \<open>k - N + 1\<close> stored (\<open>i = N - 1\<close>), the
  value call \<open>k\<close> itself waits for. The calls that put work on the queue, \<^verbatim>\<open>Signal\<close> and
  \<^verbatim>\<open>GpuWait\<close>, never wait.
\<close>

theorem Next_throttles:
  "(count \<noteq> 0 \<longrightarrow> LinearFence_ctor pQueue count w = Done (lf, w0) \<longrightarrow>
      run cs lf w0 [] = Done ((t, w'), recs) \<longrightarrow>
      unat count \<le> Suc i \<longrightarrow> i < length recs \<longrightarrow> recs ! i \<noteq> UnspecifiedFenceValue \<longrightarrow>
      has_reached w' (m_fence lf) (recs ! i)) \<and>
   Signal this v w1 \<noteq> Hang \<and> GpuWait this v w1 \<noteq> Hang \<and>
   GpuWait_static q this v w1 \<noteq> Hang"
proof (intro conjI impI)
  assume c: "count \<noteq> 0" and d: "LinearFence_ctor pQueue count w = Done (lf, w0)"
    and r: "run cs lf w0 [] = Done ((t, w'), recs)"
    and i: "unat count \<le> Suc i" "i < length recs" "recs ! i \<noteq> UnspecifiedFenceValue"
  from LinearFence_ctor_throttled [OF d c] have ib: "in_bounds lf" and th: "throttled lf w0 []"
    by simp_all
  from run_in_bounds [OF ib, of cs w0 "[]"] r LinearFence_ctor_result [OF d]
  have len: "length (m_signalHistory t) = unat count" by simp
  from run_fence [OF ib r] have fence: "m_fence t = m_fence lf" by simp
  from throttled_run [OF th r] have "throttled t w' recs" .
  with len i fence show "has_reached w' (m_fence lf) (recs ! i)"
    by (simp add: throttled_def Let_def)
qed (rule never_hang)+


theorem Next_throttles_witness:
  "\<exists>w0 t w' recs.
     LinearFence_ctor 0 2 eager_world = Done (a_linear_fence, w0) \<and>
     run [DoSignal UnspecifiedFenceValue, DoNext, DoSignal UnspecifiedFenceValue, DoNext,
          DoSignal UnspecifiedFenceValue, DoNext] a_linear_fence w0 [] = Done ((t, w'), recs) \<and>
     recs = [3, 2, 1] \<and>
     has_reached w' 0 1 \<and> has_reached w' 0 2"
proof -
  let ?w0 = "case LinearFence_ctor 0 2 eager_world of
      Done (lf, w) \<Rightarrow> w | Failed e w \<Rightarrow> w | Hang \<Rightarrow> eager_world"
  let ?cs = "[DoSignal UnspecifiedFenceValue, DoNext, DoSignal UnspecifiedFenceValue, DoNext,
          DoSignal UnspecifiedFenceValue, DoNext]"
  have e: "0 \<in> set (queues eager_world)" "\<not> device_removed eager_world"
    "os_handles eager_world = 1 # [2, 3]" "next_fence eager_world = 0"
    by (simp_all add: eager_world_def idle_world_def)
  have r2: "replicate 2 (0::u64) = [0, 0]" by code_simp
  from LinearFence_ctor_returns [OF e(1-3) idle_world_facts(4), of 2]
  have c: "LinearFence_ctor 0 2 eager_world = Done (a_linear_fence, ?w0)"
    by (auto simp: e(4) a_linear_fence_def r2)
  have "(case run ?cs a_linear_fence ?w0 [] of
           Done ((t, w'), recs) \<Rightarrow> recs = [3, 2, 1] | Failed e s \<Rightarrow> False | Hang \<Rightarrow> False)"
    by code_simp
  then obtain t w' where r: "run ?cs a_linear_fence ?w0 [] = Done ((t, w'), [3, 2, 1])"
    by (cases "run ?cs a_linear_fence ?w0 []") auto
  have two: "(2::uint) \<noteq> 0" "unat (2::uint) = 2" by simp_all
  have u: "(1::u64) \<noteq> UnspecifiedFenceValue" "(2::u64) \<noteq> UnspecifiedFenceValue"
    by (simp_all add: UnspecifiedFenceValue_def)
  have f: "m_fence a_linear_fence = 0" by (simp add: a_linear_fence_def)
  note T = Next_throttles [where count = 2 and pQueue = 0 and w = eager_world
      and lf = a_linear_fence and ?w0.0 = ?w0 and cs = ?cs and t = t and w' = w'
      and recs = "[3, 2, 1]", THEN conjunct1, rule_format, OF two(1) c r]
  from T [of 2] two(2) u f have a: "has_reached w' 0 1" by simp
  from T [of 1] two(2) u f have b: "has_reached w' 0 2" by simp
  from c r a b show ?thesis by blast
qed

text \<open>
  The claim as stated fails when the stored counter is \<open>2^64 - 1\<close>. On a new
  \<^verbatim>\<open>LinearFence\<close> of capacity 2, with a GPU that takes no step, two calls of \<^verbatim>\<open>Signal\<close>
  bring the counter to \<open>2^64 - 1\<close>, the first \<^verbatim>\<open>Next\<close> stores it, and a third \<^verbatim>\<open>Signal()\<close>
  wraps the counter to 0. The second \<^verbatim>\<open>Next\<close> calls \<^verbatim>\<open>CpuWait(0xFFFFFFFFFFFFFFFF)\<close>, which
  waits for the counter, 0, and returns. The third \<^verbatim>\<open>Next\<close> (\<open>k = 3 > N = 2\<close>) returns
  although the fence object, still at 0, never reached what call 1 stored.
\<close>

theorem Next_returns_before_stored_value:
  "LinearFence_ctor 0 2 idle_world = Done (a_linear_fence, constructed_world) \<and>
   (case run [DoSignal 0xFFFFFFFFFFFFFFFE, DoSignal UnspecifiedFenceValue, DoNext,
              DoSignal UnspecifiedFenceValue, DoNext, DoNext]
           a_linear_fence constructed_world [] of
      Done ((t, w), recs) \<Rightarrow>
        recs = [0, 0, 0xFFFFFFFFFFFFFFFF] \<and>
        completed w (m_fence t) = 0 \<and> past w (m_fence t) = [] \<and>
        \<not> has_reached w (m_fence t) 0xFFFFFFFFFFFFFFFF
    | Failed e s \<Rightarrow> False
    | Hang \<Rightarrow> False)"
proof
  show "LinearFence_ctor 0 2 idle_world = Done (a_linear_fence, constructed_world)"
    by (rule constructed(2))
  show "(case run [DoSignal 0xFFFFFFFFFFFFFFFE, DoSignal UnspecifiedFenceValue, DoNext,
              DoSignal UnspecifiedFenceValue, DoNext, DoNext]
           a_linear_fence constructed_world [] of
      Done ((t, w), recs) \<Rightarrow>
        recs = [0, 0, 0xFFFFFFFFFFFFFFFF] \<and>
        completed w (m_fence t) = 0 \<and> past w (m_fence t) = [] \<and>
        \<not> has_reached w (m_fence t) 0xFFFFFFFFFFFFFFFF
    | Failed e s \<Rightarrow> False
    | Hang \<Rightarrow> False)"
    by code_simp
qed

lemma queue_Wait_guarded:
  assumes "queue_Wait q f v w = (hr, w1)" and "\<not> device_removed w"
  shows "guarded w1 q (retired w1 q + length (pending w1 q) - 1) f v"
    and "pending w1 q = pending (advance w) q @ [WaitCmd f v]"
    and "hr = S_OK"
proof -
  from queue_Wait_result [OF assms(1)] assms(2)
  show p: "pending w1 q = pending (advance w) q @ [WaitCmd f v]" and "hr = S_OK"
    by simp_all
  then have "stalls_at w1 q (retired w1 q + length (pending w1 q) - 1) f v"
    by (simp add: stalls_at_def nth_append)
  then show "guarded w1 q (retired w1 q + length (pending w1 q) - 1) f v"
    by (simp add: guarded_def)
qed

text \<open>
  C8. The static \<^verbatim>\<open>GpuWait(queueB, fenceA, v)\<close> makes one native call, \<^verbatim>\<open>Wait\<close> on \<open>queueB\<close>
  for the fence object of \<open>fenceA\<close> and the value \<open>v\<close>, or the counter of \<open>fenceA\<close> when
  \<open>v\<close> is the reserved value; \<open>fenceA\<close> is left as it is. If the device accepts the call,
  the wait command is the last of \<open>queueB\<close>. Let then any run of calls follow, and any
  steps of the GPU: if \<open>queueB\<close> has by then executed as many commands as it had been
  given up to and including the wait (which it must before it executes a command given
  later), the fence object has reached the value. The member \<^verbatim>\<open>GpuWait(v)\<close> is the static
  one on the queue of the fence.
\<close>

theorem GpuWait_orders_queue:
  "(\<exists>w1. ends_in (GpuWait_static q pFence val w) (pFence, w1) \<and>
      calls w1 = calls w @
        [ID3D12CommandQueue_Wait q (m_fence pFence)
           (if val = UnspecifiedFenceValue then m_currentFenceValue pFence else val)]) \<and>
   (\<not> device_removed w \<longrightarrow>
      (\<exists>w1. GpuWait_static q pFence val w = Done (pFence, w1) \<and>
         pending w1 q = pending (advance w) q @
           [WaitCmd (m_fence pFence)
              (if val = UnspecifiedFenceValue then m_currentFenceValue pFence else val)] \<and>
         (\<forall>cs lf t w2 recs ts.
            run cs lf w1 [] = Done ((t, w2), recs) \<longrightarrow>
            retired w1 q + length (pending w1 q) \<le> retired (fold gpu_tick ts w2) q \<longrightarrow>
            has_reached (fold gpu_tick ts w2) (m_fence pFence)
              (if val = UnspecifiedFenceValue then m_currentFenceValue pFence else val)))) \<and>
   GpuWait this val w = GpuWait_static (m_queue this) this val w"
proof (intro conjI impI)
  let ?v = "if val = UnspecifiedFenceValue then m_currentFenceValue pFence else val"
  obtain hr w1 where qw: "queue_Wait q (m_fence pFence) ?v w = (hr, w1)"
    by (cases "queue_Wait q (m_fence pFence) ?v w")
  then have gw: "GpuWait_static q pFence val w = ThrowIfFailed hr (pFence, w1)"
    by (simp add: GpuWait_static_def)
  from queue_Wait_result [OF qw] gw
  show "\<exists>w1. ends_in (GpuWait_static q pFence val w) (pFence, w1) \<and>
      calls w1 = calls w @ [ID3D12CommandQueue_Wait q (m_fence pFence) ?v]"
    by (auto simp: ThrowIfFailed_def ends_in_def)
  show "GpuWait this val w = GpuWait_static (m_queue this) this val w"
    by (simp add: GpuWait_def)
  assume nd: "\<not> device_removed w"
  note g = queue_Wait_guarded [OF qw nd]
  from g(3) gw have d: "GpuWait_static q pFence val w = Done (pFence, w1)"
    by (simp add: ThrowIfFailed_def)
  have "has_reached (fold gpu_tick ts w2) (m_fence pFence) ?v"
    if r: "run cs lf w1 [] = Done ((t, w2), recs)"
      and p: "retired w1 q + length (pending w1 q) \<le> retired (fold gpu_tick ts w2) q"
    for cs lf t w2 recs ts
  proof -
    from run_evolves [OF r] have "evolves w1 w2" .
    with evolves_ticks [of w2 ts] have "evolves w1 (fold gpu_tick ts w2)"
      by (rule evolves_trans)
    from guarded_evolves [OF this g(1)]
    have gd: "guarded (fold gpu_tick ts w2) q (retired w1 q + length (pending w1 q) - 1)
        (m_fence pFence) ?v" .
    from g(2) have "0 < length (pending w1 q)" by simp
    with p have "retired w1 q + length (pending w1 q) - 1 < retired (fold gpu_tick ts w2) q"
      by linarith
    with gd show ?thesis by (rule guarded_passed)
  qed
  with d g(2)
  show "\<exists>w1. GpuWait_static q pFence val w = Done (pFence, w1) \<and>
         pending w1 q = pending (advance w) q @ [WaitCmd (m_fence pFence) ?v] \<and>
         (\<forall>cs lf t w2 recs ts.
            run cs lf w1 [] = Done ((t, w2), recs) \<longrightarrow>
            retired w1 q + length (pending w1 q) \<le> retired (fold gpu_tick ts w2) q \<longrightarrow>
            has_reached (fold gpu_tick ts w2) (m_fence pFence) ?v)"
    by blast
qed

theorem GpuWait_orders_queue_witness:
  "\<exists>w1 t w2 recs.
     GpuWait_static 1 a_linear_fence 1 idle_world = Done (a_linear_fence, w1) \<and>
     pending w1 1 = [WaitCmd 0 1] \<and> retired w1 1 = 0 \<and>
     run [DoSignal UnspecifiedFenceValue] a_linear_fence w1 [] = Done ((t, w2), recs) \<and>
     retired (fold gpu_tick [GpuStep 1] w2) 1 = 0 \<and>
     retired (fold gpu_tick [GpuStep 1, GpuStep 0, GpuStep 1] w2) 1 = 1 \<and>
     has_reached (fold gpu_tick [GpuStep 1, GpuStep 0, GpuStep 1] w2) 0 1"
proof -
  let ?w1 = "case GpuWait_static 1 a_linear_fence 1 idle_world of
      Done (lf, w) \<Rightarrow> w | Failed e (lf, w) \<Rightarrow> w | Hang \<Rightarrow> idle_world"
  let ?w2 = "case run [DoSignal UnspecifiedFenceValue] a_linear_fence ?w1 [] of
      Done ((lf, w), recs) \<Rightarrow> w | Failed e (lf, w) \<Rightarrow> w | Hang \<Rightarrow> idle_world"
  have nd: "\<not> device_removed idle_world" by (simp add: idle_world_def)
  have u: "(1::u64) \<noteq> UnspecifiedFenceValue" by (simp add: UnspecifiedFenceValue_def)
  have f: "m_fence a_linear_fence = 0" by (simp add: a_linear_fence_def)
  note T = GpuWait_orders_queue [where q = 1 and pFence = a_linear_fence and val = 1
      and w = idle_world, THEN conjunct2, THEN conjunct1, rule_format, OF nd]
  from T obtain w1 where d: "GpuWait_static 1 a_linear_fence 1 idle_world =
      Done (a_linear_fence, w1)"
    and ord: "\<forall>cs lf t w2 recs ts.
            run cs lf w1 [] = Done ((t, w2), recs) \<longrightarrow>
            retired w1 1 + length (pending w1 1) \<le> retired (fold gpu_tick ts w2) 1 \<longrightarrow>
            has_reached (fold gpu_tick ts w2) (m_fence a_linear_fence)
              (if 1 = UnspecifiedFenceValue then m_currentFenceValue a_linear_fence else 1)"
    by blast
  from d have w1: "w1 = ?w1" by simp
  have p: "pending ?w1 1 = [WaitCmd 0 1] \<and> retired ?w1 1 = 0"
    by code_simp
  have "(case run [DoSignal UnspecifiedFenceValue] a_linear_fence ?w1 [] of
           Done s \<Rightarrow> True | Failed e s \<Rightarrow> False | Hang \<Rightarrow> False)"
    by code_simp
  then obtain t w2 recs where
    r: "run [DoSignal UnspecifiedFenceValue] a_linear_fence ?w1 [] = Done ((t, w2), recs)"
    by (cases "run [DoSignal UnspecifiedFenceValue] a_linear_fence ?w1 []") auto
  then have w2: "w2 = ?w2" by simp
  have s: "retired (fold gpu_tick [GpuStep 1] ?w2) 1 = 0 \<and>
      retired (fold gpu_tick [GpuStep 1, GpuStep 0, GpuStep 1] ?w2) 1 = 1"
    by code_simp
  from r w1 have r': "run [DoSignal UnspecifiedFenceValue] a_linear_fence w1 [] =
      Done ((t, w2), recs)" by simp
  from p s w1 w2 have "retired w1 1 + length (pending w1 1)
      \<le> retired (fold gpu_tick [GpuStep 1, GpuStep 0, GpuStep 1] w2) 1"
    by simp
  from ord [rule_format, OF r' this] u f
  have "has_reached (fold gpu_tick [GpuStep 1, GpuStep 0, GpuStep 1] w2) 0 1"
    by simp
  moreover from p w1 have "pending w1 1 = [WaitCmd 0 1]" "retired w1 1 = 0"
    by simp_all
  moreover from s w2 have "retired (fold gpu_tick [GpuStep 1] w2) 1 = 0"
    "retired (fold gpu_tick [GpuStep 1, GpuStep 0, GpuStep 1] w2) 1 = 1"
    by simp_all
  ultimately show ?thesis
    using d r' by blast
qed

subsection \<open>The reserved value\<close>

lemma CpuWait_resolved:
  assumes g: "fence_GetCompletedValue (m_fence this) w = (c, w1)"
    and r: "r = (if v = UnspecifiedFenceValue then m_currentFenceValue this else v)"
  shows "r \<le> c \<longrightarrow> CpuWait this v w = Done (this, w1)"
    and "c < r \<longrightarrow>
        (\<exists>hr w2.
           fence_SetEventOnCompletion (m_fence this) r (m_fenceEvent this) w1 = (hr, w2) \<and>
           calls w2 = calls w @ [ID3D12Fence_GetCompletedValue (m_fence this),
             ID3D12Fence_SetEventOnCompletion (m_fence this) r (m_fenceEvent this)] \<and>
           (device_removed w \<longrightarrow> CpuWait this v w = Failed (HrException hr) (this, w2)) \<and>
           (\<not> device_removed w \<longrightarrow>
              registered w2 = (registered w)(m_fenceEvent this := Some (m_fence this, r)) \<and>
              CpuWait this v w =
                (case WaitForSingleObjectEx (m_fenceEvent this) w2 of
                   None \<Rightarrow> Hang
                 | Some w3 \<Rightarrow> Done (this, w3)) \<and>
              (\<forall>t w3. CpuWait this v w = Done (t, w3) \<longrightarrow> r \<le> completed w3 (m_fence this))))"
proof -
  note gr = GetCompletedValue_result [OF g]
  from g r show "r \<le> c \<longrightarrow> CpuWait this v w = Done (this, w1)"
    by (auto simp: CpuWait_def Let_def)
  show "c < r \<longrightarrow>
        (\<exists>hr w2.
           fence_SetEventOnCompletion (m_fence this) r (m_fenceEvent this) w1 = (hr, w2) \<and>
           calls w2 = calls w @ [ID3D12Fence_GetCompletedValue (m_fence this),
             ID3D12Fence_SetEventOnCompletion (m_fence this) r (m_fenceEvent this)] \<and>
           (device_removed w \<longrightarrow> CpuWait this v w = Failed (HrException hr) (this, w2)) \<and>
           (\<not> device_removed w \<longrightarrow>
              registered w2 = (registered w)(m_fenceEvent this := Some (m_fence this, r)) \<and>
              CpuWait this v w =
                (case WaitForSingleObjectEx (m_fenceEvent this) w2 of
                   None \<Rightarrow> Hang
                 | Some w3 \<Rightarrow> Done (this, w3)) \<and>
              (\<forall>t w3. CpuWait this v w = Done (t, w3) \<longrightarrow> r \<le> completed w3 (m_fence this))))"
  proof
    assume cr: "c < r"
    obtain hr w2 where s:
      "fence_SetEventOnCompletion (m_fence this) r (m_fenceEvent this) w1 = (hr, w2)"
      by (cases "fence_SetEventOnCompletion (m_fence this) r (m_fenceEvent this) w1")
    note sr = SetEventOnCompletion_result [OF s]
    from cr g s r have cw: "CpuWait this v w =
        and_then (ThrowIfFailed hr (this, w2)) (\<lambda>(this, w2).
           case WaitForSingleObjectEx (m_fenceEvent this) w2 of
             None \<Rightarrow> Hang | Some w3 \<Rightarrow> Done (this, w3))"
      by (simp add: CpuWait_def)
    have c1: "calls w2 = calls w @ [ID3D12Fence_GetCompletedValue (m_fence this),
             ID3D12Fence_SetEventOnCompletion (m_fence this) r (m_fenceEvent this)]"
      using gr sr by simp
    have c2: "CpuWait this v w = Failed (HrException hr) (this, w2)" if "device_removed w"
      using that gr sr cw by (simp add: ThrowIfFailed_def)
    have c3: "registered w2 = (registered w)(m_fenceEvent this := Some (m_fence this, r))"
      and c4: "CpuWait this v w =
                (case WaitForSingleObjectEx (m_fenceEvent this) w2 of
                   None \<Rightarrow> Hang
                 | Some w3 \<Rightarrow> Done (this, w3))"
      if "\<not> device_removed w"
      using that gr sr cw by (simp_all add: ThrowIfFailed_def)
    have c5: "r \<le> completed w3 (m_fence this)"
      if d: "\<not> device_removed w" and k: "CpuWait this v w = Done (t, w3)" for t w3
    proof -
      from c4 [OF d] k have x: "WaitForSingleObjectEx (m_fenceEvent this) w2 = Some w3"
        by (simp split: option.splits)
      from WaitForSingleObjectEx_result [OF x] c3 [OF d] show ?thesis by auto
    qed
    from s c1 c2 c3 c4 c5 show "\<exists>hr w2.
           fence_SetEventOnCompletion (m_fence this) r (m_fenceEvent this) w1 = (hr, w2) \<and>
           calls w2 = calls w @ [ID3D12Fence_GetCompletedValue (m_fence this),
             ID3D12Fence_SetEventOnCompletion (m_fence this) r (m_fenceEvent this)] \<and>
           (device_removed w \<longrightarrow> CpuWait this v w = Failed (HrException hr) (this, w2)) \<and>
           (\<not> device_removed w \<longrightarrow>
              registered w2 = (registered w)(m_fenceEvent this := Some (m_fence this, r)) \<and>
              CpuWait this v w =
                (case WaitForSingleObjectEx (m_fenceEvent this) w2 of
                   None \<Rightarrow> Hang
                 | Some w3 \<Rightarrow> Done (this, w3)) \<and>
              (\<forall>t w3. CpuWait this v w = Done (t, w3) \<longrightarrow> r \<le> completed w3 (m_fence this)))"
      by blast
  qed
qed

lemma GpuWait_static_call:
  "\<exists>w1. ends_in (GpuWait_static q this val w) (this, w1) \<and>
      calls w1 = calls w @
        [ID3D12CommandQueue_Wait q (m_fence this)
           (if val = UnspecifiedFenceValue then m_currentFenceValue this else val)] \<and>
      (\<not> device_removed w \<longrightarrow>
         GpuWait_static q this val w = Done (this, w1) \<and>
         pending w1 q = pending (advance w) q @
           [WaitCmd (m_fence this)
              (if val = UnspecifiedFenceValue then m_currentFenceValue this else val)])"
proof -
  let ?v = "if val = UnspecifiedFenceValue then m_currentFenceValue this else val"
  obtain hr w1 where qw: "queue_Wait q (m_fence this) ?v w = (hr, w1)"
    by (cases "queue_Wait q (m_fence this) ?v w")
  then have gw: "GpuWait_static q this val w = ThrowIfFailed hr (this, w1)"
    by (simp add: GpuWait_static_def)
  from queue_Wait_result [OF qw] gw show ?thesis
    by (auto simp: ThrowIfFailed_def ends_in_def)
qed

text \<open>
  C9. \<^verbatim>\<open>UnspecifiedFenceValue\<close> is \<open>2^64 - 1\<close>, so \<^verbatim>\<open>Signal(0xFFFFFFFFFFFFFFFF)\<close> is the call
  with no value: it adds 1 to the counter and signals that sum, it never fails the
  assertion, and the counter becomes \<open>2^64 - 1\<close> only from \<open>2^64 - 2\<close>. \<^verbatim>\<open>GpuWait\<close> with
  that value, static or not, is the call with the counter: its one native call is the
  wait for the counter, which the device puts on the queue. \<^verbatim>\<open>CpuWait\<close> with that value
  is the call with the counter: it compares the completed value with the counter, returns
  at once if the counter is reached, and otherwise registers the event for the counter and
  returns only when the fence object holds at least the counter.
\<close>

theorem reserved_value_collision:
  "unat UnspecifiedFenceValue = 2 ^ 64 - 1 \<and>
   (\<exists>w1. (Signal this 0xFFFFFFFFFFFFFFFF w =
             Done (this\<lparr>m_currentFenceValue := m_currentFenceValue this + 1\<rparr>, w1) \<or>
           (\<exists>hr. Signal this 0xFFFFFFFFFFFFFFFF w =
             Failed (HrException hr)
               (this\<lparr>m_currentFenceValue := m_currentFenceValue this + 1\<rparr>, w1))) \<and>
          calls w1 = calls w @ [ID3D12CommandQueue_Signal (m_queue this) (m_fence this)
                                  (m_currentFenceValue this + 1)]) \<and>
   (\<forall>s. Signal this 0xFFFFFFFFFFFFFFFF w \<noteq> Failed AssertionFailed s) \<and>
   ((m_currentFenceValue this + 1 = 0xFFFFFFFFFFFFFFFF) =
      (m_currentFenceValue this = 0xFFFFFFFFFFFFFFFE)) \<and>
   GpuWait_static q this 0xFFFFFFFFFFFFFFFF w =
     GpuWait_static q this (m_currentFenceValue this) w \<and>
   GpuWait this 0xFFFFFFFFFFFFFFFF w = GpuWait this (m_currentFenceValue this) w \<and>
   CpuWait this 0xFFFFFFFFFFFFFFFF w = CpuWait this (m_currentFenceValue this) w \<and>
   (\<exists>w1. ends_in (GpuWait_static q this 0xFFFFFFFFFFFFFFFF w) (this, w1) \<and>
      calls w1 = calls w @
        [ID3D12CommandQueue_Wait q (m_fence this) (m_currentFenceValue this)] \<and>
      (\<not> device_removed w \<longrightarrow>
         GpuWait_static q this 0xFFFFFFFFFFFFFFFF w = Done (this, w1) \<and>
         pending w1 q = pending (advance w) q @
           [WaitCmd (m_fence this) (m_currentFenceValue this)])) \<and>
   (\<exists>w1. ends_in (GpuWait this 0xFFFFFFFFFFFFFFFF w) (this, w1) \<and>
      calls w1 = calls w @
        [ID3D12CommandQueue_Wait (m_queue this) (m_fence this) (m_currentFenceValue this)] \<and>
      (\<not> device_removed w \<longrightarrow>
         GpuWait this 0xFFFFFFFFFFFFFFFF w = Done (this, w1) \<and>
         pending w1 (m_queue this) = pending (advance w) (m_queue this) @
           [WaitCmd (m_fence this) (m_currentFenceValue this)])) \<and>
   (\<forall>c w1. fence_GetCompletedValue (m_fence this) w = (c, w1) \<longrightarrow>
      (m_currentFenceValue this \<le> c \<longrightarrow>
         CpuWait this 0xFFFFFFFFFFFFFFFF w = Done (this, w1) \<and>
         calls w1 = calls w @ [ID3D12Fence_GetCompletedValue (m_fence this)]) \<and>
      (c < m_currentFenceValue this \<longrightarrow>
         (\<exists>hr w2.
            fence_SetEventOnCompletion (m_fence this) (m_currentFenceValue this)
              (m_fenceEvent this) w1 = (hr, w2) \<and>
            calls w2 = calls w @ [ID3D12Fence_GetCompletedValue (m_fence this),
              ID3D12Fence_SetEventOnCompletion (m_fence this) (m_currentFenceValue this)
                (m_fenceEvent this)] \<and>
            (device_removed w \<longrightarrow>
               CpuWait this 0xFFFFFFFFFFFFFFFF w = Failed (HrException hr) (this, w2)) \<and>
            (\<not> device_removed w \<longrightarrow>
               registered w2 = (registered w)
                 (m_fenceEvent this := Some (m_fence this, m_currentFenceValue this)) \<and>
               CpuWait this 0xFFFFFFFFFFFFFFFF w =
                 (case WaitForSingleObjectEx (m_fenceEvent this) w2 of
                    None \<Rightarrow> Hang
                  | Some w3 \<Rightarrow> Done (this, w3)) \<and>
               (\<forall>t w3. CpuWait this 0xFFFFFFFFFFFFFFFF w = Done (t, w3) \<longrightarrow>
                  m_currentFenceValue this \<le> completed w3 (m_fence this))))))"
proof (intro conjI allI impI)
  show "unat UnspecifiedFenceValue = 2 ^ 64 - 1"
    by (simp add: UnspecifiedFenceValue_def)
  have u: "(0xFFFFFFFFFFFFFFFF :: u64) = UnspecifiedFenceValue"
    by (simp add: UnspecifiedFenceValue_def)
  obtain hr w1 where q: "queue_Signal (m_queue this) (m_fence this)
      (m_currentFenceValue this + 1) w = (hr, w1)"
    by (cases "queue_Signal (m_queue this) (m_fence this) (m_currentFenceValue this + 1) w")
  from queue_Signal_result [OF q] have "calls w1 = calls w @
      [ID3D12CommandQueue_Signal (m_queue this) (m_fence this) (m_currentFenceValue this + 1)]"
    by simp
  with q
  show "\<exists>w1. (Signal this 0xFFFFFFFFFFFFFFFF w =
             Done (this\<lparr>m_currentFenceValue := m_currentFenceValue this + 1\<rparr>, w1) \<or>
           (\<exists>hr. Signal this 0xFFFFFFFFFFFFFFFF w =
             Failed (HrException hr)
               (this\<lparr>m_currentFenceValue := m_currentFenceValue this + 1\<rparr>, w1))) \<and>
          calls w1 = calls w @ [ID3D12CommandQueue_Signal (m_queue this) (m_fence this)
                                  (m_currentFenceValue this + 1)]"
    unfolding u
    by (cases "FAILED hr") (auto simp: Signal_def CRT_ASSERT_def ThrowIfFailed_def)
  show "Signal this 0xFFFFFFFFFFFFFFFF w \<noteq> Failed AssertionFailed s" for s
    unfolding u
    by (auto simp: Signal_def CRT_ASSERT_def ThrowIfFailed_def split: prod.splits)
  show "(m_currentFenceValue this + 1 = 0xFFFFFFFFFFFFFFFF) =
      (m_currentFenceValue this = 0xFFFFFFFFFFFFFFFE)"
    by (rule next_to_top)
  show "GpuWait_static q this 0xFFFFFFFFFFFFFFFF w =
     GpuWait_static q this (m_currentFenceValue this) w"
    unfolding u by (simp add: GpuWait_static_def)
  show "GpuWait this 0xFFFFFFFFFFFFFFFF w = GpuWait this (m_currentFenceValue this) w"
    unfolding u by (simp add: GpuWait_def GpuWait_static_def)
  show "CpuWait this 0xFFFFFFFFFFFFFFFF w = CpuWait this (m_currentFenceValue this) w"
    unfolding u by (simp add: CpuWait_def)
  from GpuWait_static_call [of q this UnspecifiedFenceValue w]
  show "\<exists>w1. ends_in (GpuWait_static q this 0xFFFFFFFFFFFFFFFF w) (this, w1) \<and>
      calls w1 = calls w @
        [ID3D12CommandQueue_Wait q (m_fence this) (m_currentFenceValue this)] \<and>
      (\<not> device_removed w \<longrightarrow>
         GpuWait_static q this 0xFFFFFFFFFFFFFFFF w = Done (this, w1) \<and>
         pending w1 q = pending (advance w) q @
           [WaitCmd (m_fence this) (m_currentFenceValue this)])"
    unfolding u by simp
  from GpuWait_static_call [of "m_queue this" this UnspecifiedFenceValue w]
  show "\<exists>w1. ends_in (GpuWait this 0xFFFFFFFFFFFFFFFF w) (this, w1) \<and>
      calls w1 = calls w @
        [ID3D12CommandQueue_Wait (m_queue this) (m_fence this) (m_currentFenceValue this)] \<and>
      (\<not> device_removed w \<longrightarrow>
         GpuWait this 0xFFFFFFFFFFFFFFFF w = Done (this, w1) \<and>
         pending w1 (m_queue this) = pending (advance w) (m_queue this) @
           [WaitCmd (m_fence this) (m_currentFenceValue this)])"
    unfolding u by (simp add: GpuWait_def)
next
  fix c w1
  assume g: "fence_GetCompletedValue (m_fence this) w = (c, w1)"
  have u: "(0xFFFFFFFFFFFFFFFF :: u64) = UnspecifiedFenceValue"
    by (simp add: UnspecifiedFenceValue_def)
  have r: "m_currentFenceValue this =
      (if (0xFFFFFFFFFFFFFFFF :: u64) = UnspecifiedFenceValue
       then m_currentFenceValue this else 0xFFFFFFFFFFFFFFFF)"
    by (simp add: u)
  note R = CpuWait_resolved [OF g r]
  {
    assume "m_currentFenceValue this \<le> c"
    with R(1) show "CpuWait this 0xFFFFFFFFFFFFFFFF w = Done (this, w1)" by simp
    from GetCompletedValue_result [OF g]
    show "calls w1 = calls w @ [ID3D12Fence_GetCompletedValue (m_fence this)]" by simp
  }
  assume "c < m_currentFenceValue this"
  with R(2) show "\<exists>hr w2.
            fence_SetEventOnCompletion (m_fence this) (m_currentFenceValue this)
              (m_fenceEvent this) w1 = (hr, w2) \<and>
            calls w2 = calls w @ [ID3D12Fence_GetCompletedValue (m_fence this),
              ID3D12Fence_SetEventOnCompletion (m_fence this) (m_currentFenceValue this)
                (m_fenceEvent this)] \<and>
            (device_removed w \<longrightarrow>
               CpuWait this 0xFFFFFFFFFFFFFFFF w = Failed (HrException hr) (this, w2)) \<and>
            (\<not> device_removed w \<longrightarrow>
               registered w2 = (registered w)
                 (m_fenceEvent this := Some (m_fence this, m_currentFenceValue this)) \<and>
               CpuWait this 0xFFFFFFFFFFFFFFFF w =
                 (case WaitForSingleObjectEx (m_fenceEvent this) w2 of
                    None \<Rightarrow> Hang
                  | Some w3 \<Rightarrow> Done (this, w3)) \<and>
               (\<forall>t w3. CpuWait this 0xFFFFFFFFFFFFFFFF w = Done (t, w3) \<longrightarrow>
                  m_currentFenceValue this \<le> completed w3 (m_fence this)))"
    by blast
qed


theorem reserved_value_collision_witness:
  "(\<exists>w1. GpuWait_static 1 (a_fence\<lparr>m_currentFenceValue := 5\<rparr>) 0xFFFFFFFFFFFFFFFF idle_world =
            Done (a_fence\<lparr>m_currentFenceValue := 5\<rparr>, w1) \<and>
      calls w1 = [ID3D12CommandQueue_Wait 1 0 5] \<and> pending w1 1 = [WaitCmd 0 5]) \<and>
   (\<exists>w3. CpuWait (a_fence\<lparr>m_currentFenceValue := 1\<rparr>) 0xFFFFFFFFFFFFFFFF busy_world =
            Done (a_fence\<lparr>m_currentFenceValue := 1\<rparr>, w3) \<and>
      1 \<le> completed w3 0) \<and>
   CpuWait a_fence 0xFFFFFFFFFFFFFFFF idle_world =
     Done (a_fence, log_call (ID3D12Fence_GetCompletedValue 0) idle_world)"
proof (intro conjI)
  let ?f5 = "a_fence\<lparr>m_currentFenceValue := 5\<rparr>"
  let ?f1 = "a_fence\<lparr>m_currentFenceValue := 1\<rparr>"
  have i: "\<not> device_removed idle_world" "calls idle_world = []"
      "pending (advance idle_world) 1 = []"
    by (simp_all add: idle_world_def advance_def)
  have f5: "m_fence ?f5 = 0" "m_currentFenceValue ?f5 = 5"
    by (simp_all add: a_fence_def)
  from reserved_value_collision [where this = ?f5 and w = idle_world and q = 1,
      THEN conjunct2, THEN conjunct2, THEN conjunct2, THEN conjunct2, THEN conjunct2,
      THEN conjunct2, THEN conjunct2, THEN conjunct1] i
  show "\<exists>w1. GpuWait_static 1 ?f5 0xFFFFFFFFFFFFFFFF idle_world = Done (?f5, w1) \<and>
      calls w1 = [ID3D12CommandQueue_Wait 1 0 5] \<and> pending w1 1 = [WaitCmd 0 5]"
    unfolding f5 by auto
  have f1: "m_fence ?f1 = 0" "m_currentFenceValue ?f1 = 1" "m_fenceEvent ?f1 = 1"
    by (simp_all add: a_fence_def)
  obtain w1 where g1: "fence_GetCompletedValue (m_fence ?f1) busy_world = (0, w1)"
    by (simp add: native_simps f1 busy_world_def idle_world_def)
  have nd: "\<not> device_removed busy_world"
    by (simp add: busy_world_def idle_world_def)
  have "\<exists>w3. CpuWait ?f1 0xFFFFFFFFFFFFFFFF busy_world = Done (?f1, w3)"
    by (simp add: run_simps a_fence_def busy_world_def idle_world_def)
  then obtain w3 where d: "CpuWait ?f1 0xFFFFFFFFFFFFFFFF busy_world = Done (?f1, w3)" ..
  from reserved_value_collision [where this = ?f1 and w = busy_world and q = 0,
      THEN conjunct2, THEN conjunct2, THEN conjunct2, THEN conjunct2, THEN conjunct2,
      THEN conjunct2, THEN conjunct2, THEN conjunct2, THEN conjunct2,
      rule_format, OF g1, THEN conjunct2] nd d
  have "1 \<le> completed w3 0"
    unfolding f1 by auto
  with d show "\<exists>w3. CpuWait ?f1 0xFFFFFFFFFFFFFFFF busy_world = Done (?f1, w3) \<and>
      1 \<le> completed w3 0"
    by blast
  have f: "m_fence a_fence = 0" "m_currentFenceValue a_fence = 0"
    by (simp_all add: a_fence_def)
  have g0: "fence_GetCompletedValue (m_fence a_fence) idle_world =
      (0, log_call (ID3D12Fence_GetCompletedValue 0) idle_world)"
    by (simp add: f idle_world_completed)
  from reserved_value_collision [where this = a_fence and w = idle_world and q = 0,
      THEN conjunct2, THEN conjunct2, THEN conjunct2, THEN conjunct2, THEN conjunct2,
      THEN conjunct2, THEN conjunct2, THEN conjunct2, THEN conjunct2,
      rule_format, OF g0, THEN conjunct1]
  show "CpuWait a_fence 0xFFFFFFFFFFFFFFFF idle_world =
     Done (a_fence, log_call (ID3D12Fence_GetCompletedValue 0) idle_world)"
    by (simp add: f)
qed

end
